theory Spec2Isabelle
  imports Complex_Main
begin

section \<open>Tensors, errors and the function cache\<close>

text \<open>
  The tensor primitive is external to the sources under study.  A tensor is modelled as a
  nest of lists: a \<open>Batch\<close> node is one leading axis, a \<open>Leaf\<close> holds the trailing
  block the operation at hand works on (a row for the operations on the last axis, a matrix
  for the operations on the last two axes, a scalar for reductions along any axis).  Entries
  are exact numbers: floating-point rounding is not part of the model.
\<close>

datatype error = ShapeError | ValueError | TypeError | ZeroDivisionError | IndexError | AxisError

datatype 'b batch = Leaf 'b | Batch "'b batch list"

type_synonym 'a mat = "'a list list"

text \<open>\<open>x.shape[-1]\<close> and \<open>x.ndim\<close> of a tensor seen as a nest of rows.  A tensor with an
  empty leading axis has lost the extents behind it; the value chosen there is 0.\<close>

fun last_dim :: "'a list batch \<Rightarrow> nat" where
  "last_dim (Leaf r) = length r"
| "last_dim (Batch []) = 0"
| "last_dim (Batch (t # ts)) = last_dim t"

fun ndim :: "'a list batch \<Rightarrow> nat" where
  "ndim (Leaf r) = 1"
| "ndim (Batch []) = 2"
| "ndim (Batch (t # ts)) = Suc (ndim t)"

text \<open>Well-formedness: the leading axes of a tensor have the extents \<open>bs\<close> and every
  trailing block satisfies \<open>P\<close> (a row of some length, a matrix of some extents).\<close>

fun has_bshape :: "nat list \<Rightarrow> ('b \<Rightarrow> bool) \<Rightarrow> 'b batch \<Rightarrow> bool" where
  "has_bshape bs P (Leaf b) = (bs = [] \<and> P b)"
| "has_bshape bs P (Batch ts) =
     (case bs of [] \<Rightarrow> False | k # bs' \<Rightarrow> length ts = k \<and> list_all (has_bshape bs' P) ts)"

definition is_vec :: "nat \<Rightarrow> 'a list \<Rightarrow> bool" where
  "is_vec n r = (length r = n)"

definition is_mat :: "nat \<Rightarrow> nat \<Rightarrow> 'a mat \<Rightarrow> bool" where
  "is_mat h w m = (length m = h \<and> list_all (\<lambda>r. length r = w) m)"

text \<open>The blocks of a tensor, in row-major order.\<close>

fun leaves :: "'b batch \<Rightarrow> 'b list" where
  "leaves (Leaf b) = [b]"
| "leaves (Batch ts) = concat (map leaves ts)"

lemma size_batch_in_list: "t \<in> set ts \<Longrightarrow> size t < Suc (size_list size ts)"
  by (simp add: less_Suc_eq_le size_list_estimation')

lemma size_batch_in_zip:
  "(t, u) \<in> set (zip ts us) \<Longrightarrow>
   size t + size u < Suc (Suc (size_list size ts + size_list size us))"
proof -
  assume a: "(t, u) \<in> set (zip ts us)"
  have "t \<in> set ts" and "u \<in> set us"
    using a by (auto dest: set_zip_leftD set_zip_rightD)
  then show ?thesis
    using size_batch_in_list [of t ts] size_batch_in_list [of u us] by linarith
qed

text \<open>
  Modelled from the spec: the tensor primitive "broadcasts" its elementwise operations.
  Over the leading axes two extents match when they are equal or one of them is 1, and the
  tensor of lower rank is repeated along the missing axes; \<open>broadcastable\<close> is the check
  the primitive makes before it computes.
\<close>

function broadcast2 :: "('b \<Rightarrow> 'c \<Rightarrow> 'd) \<Rightarrow> 'b batch \<Rightarrow> 'c batch \<Rightarrow> 'd batch" where
  "broadcast2 f (Leaf a) (Leaf b) = Leaf (f a b)"
| "broadcast2 f (Leaf a) (Batch us) = Batch (map (broadcast2 f (Leaf a)) us)"
| "broadcast2 f (Batch ts) (Leaf b) = Batch (map (\<lambda>t. broadcast2 f t (Leaf b)) ts)"
| "broadcast2 f (Batch ts) (Batch us) =
     (if length ts = length us then Batch (map2 (broadcast2 f) ts us)
      else case us of
             [u] \<Rightarrow> Batch (map (\<lambda>t. broadcast2 f t u) ts)
           | _ \<Rightarrow> (case ts of [t] \<Rightarrow> Batch (map (broadcast2 f t) us) | _ \<Rightarrow> Batch []))"
  by pat_completeness auto
termination
  by (relation "measure (\<lambda>(f, t, u). size t + size u)")
     (auto simp: size_batch_in_zip dest: size_batch_in_list)

function broadcastable :: "'b batch \<Rightarrow> 'c batch \<Rightarrow> bool" where
  "broadcastable (Leaf a) (Leaf b) = True"
| "broadcastable (Leaf a) (Batch us) = list_all (broadcastable (Leaf a)) us"
| "broadcastable (Batch ts) (Leaf b) = list_all (\<lambda>t. broadcastable t (Leaf b)) ts"
| "broadcastable (Batch ts) (Batch us) =
     (if length ts = length us then list_all (\<lambda>(t, u). broadcastable t u) (zip ts us)
      else case us of
             [u] \<Rightarrow> list_all (\<lambda>t. broadcastable t u) ts
           | _ \<Rightarrow> (case ts of [t] \<Rightarrow> list_all (broadcastable t) us | _ \<Rightarrow> False))"
  by pat_completeness auto
termination
  by (relation "measure (\<lambda>(t, u). size t + size u)")
     (auto simp: size_batch_in_zip dest: size_batch_in_list)

text \<open>\<open>t.sum(axis=0)\<close> without \<open>keepdims\<close>: the blocks along the first axis are added up.
  A tensor that is a single block has no leading axis left and is returned as it is.\<close>

fun sum_axis0 :: "('b \<Rightarrow> 'b \<Rightarrow> 'b) \<Rightarrow> 'b batch \<Rightarrow> 'b batch" where
  "sum_axis0 add (Leaf b) = Leaf b"
| "sum_axis0 add (Batch []) = Batch []"
| "sum_axis0 add (Batch (t # ts)) = fold (\<lambda>u acc. broadcast2 add acc u) ts t"

text \<open>\<open>t.sum(axis=tuple(range(k)))\<close>: the first \<open>k\<close> axes are summed out.\<close>

definition sum_leading :: "('b \<Rightarrow> 'b \<Rightarrow> 'b) \<Rightarrow> nat \<Rightarrow> 'b batch \<Rightarrow> 'b batch" where
  "sum_leading add k t = (sum_axis0 add ^^ k) t"

text \<open>
  Modelled from the spec: the classes \<open>FunctionCache\<close> and \<open>PseudoCache\<close> are not among the
  sources.  The cache is "a key-value scratch region"; a key never written reads as absent
  (\<open>None\<close>), and the "no-op cache variant ... silently discards writes".
\<close>

record 'a cache =
  is_pseudo :: bool
  cache_no_dilation :: "bool option"
  cache_dilation :: "int option"
  cache_no_padding :: "bool option"
  cache_padding :: "(int \<times> int) option"
  cache_x :: "'a mat batch option"
  cache_y :: "'a mat batch option"
  cache_kernel_size :: "(nat \<times> nat) option"
  cache_x_shape :: "nat list option"

definition FunctionCache :: "'a cache" where
  "FunctionCache = \<lparr> is_pseudo = False, cache_no_dilation = None, cache_dilation = None,
     cache_no_padding = None, cache_padding = None, cache_x = None, cache_y = None,
     cache_kernel_size = None, cache_x_shape = None \<rparr>"

definition PseudoCache :: "'a cache" where
  "PseudoCache = \<lparr> is_pseudo = True, cache_no_dilation = None, cache_dilation = None,
     cache_no_padding = None, cache_padding = None, cache_x = None, cache_y = None,
     cache_kernel_size = None, cache_x_shape = None \<rparr>"

definition set_no_dilation :: "bool \<Rightarrow> 'a cache \<Rightarrow> 'a cache" where
  "set_no_dilation v c = (if is_pseudo c then c else c\<lparr>cache_no_dilation := Some v\<rparr>)"

definition set_dilation :: "int \<Rightarrow> 'a cache \<Rightarrow> 'a cache" where
  "set_dilation v c = (if is_pseudo c then c else c\<lparr>cache_dilation := Some v\<rparr>)"

definition set_no_padding :: "bool \<Rightarrow> 'a cache \<Rightarrow> 'a cache" where
  "set_no_padding v c = (if is_pseudo c then c else c\<lparr>cache_no_padding := Some v\<rparr>)"

definition set_padding :: "int \<times> int \<Rightarrow> 'a cache \<Rightarrow> 'a cache" where
  "set_padding v c = (if is_pseudo c then c else c\<lparr>cache_padding := Some v\<rparr>)"

section \<open>Python slices on one axis\<close>

text \<open>A slice bound \<open>i\<close> on an axis of length \<open>n\<close>: negative bounds count from the end, and
  every bound is clamped into \<open>0..n\<close>.\<close>

definition slice_bound :: "nat \<Rightarrow> int \<Rightarrow> nat" where
  "slice_bound n i = (if i < 0 then nat (max 0 (i + int n)) else min n (nat i))"

text \<open>\<open>xs[start:stop]\<close>.\<close>

definition py_slice :: "int \<Rightarrow> int \<Rightarrow> 'a list \<Rightarrow> 'a list" where
  "py_slice start stop xs =
     (let n = length xs in drop (slice_bound n start) (take (slice_bound n stop) xs))"

text \<open>\<open>xs[start:]\<close>.\<close>

definition py_slice_from :: "int \<Rightarrow> 'a list \<Rightarrow> 'a list" where
  "py_slice_from start xs = drop (slice_bound (length xs) start) xs"

text \<open>\<open>xs[::k]\<close> for a positive step: the entries at 0, k, 2k, ...\<close>

definition every_nth :: "nat \<Rightarrow> 'a list \<Rightarrow> 'a list" where
  "every_nth k xs = map (\<lambda>i. xs ! (i * k)) [0..<(length xs + k - 1) div k]"

text \<open>\<open>xs[::d]\<close> for a nonzero integer step (a zero step raises, which the callers
  check): a negative step walks back from the last entry.\<close>

definition py_stride :: "int \<Rightarrow> 'a list \<Rightarrow> 'a list" where
  "py_stride d xs = (if 0 < d then every_nth (nat d) xs else every_nth (nat (- d)) (rev xs))"

text \<open>\<open>y[::k] = x\<close>: entry \<open>j\<close> of \<open>x\<close> is stored at position \<open>j * k\<close> of \<open>y\<close>.\<close>

definition assign_strided :: "nat \<Rightarrow> 'a list \<Rightarrow> 'a list \<Rightarrow> 'a list" where
  "assign_strided k y x = fold (\<lambda>j acc. acc[j * k := x ! j]) [0..<length x] y"

section \<open>Dilation and padding of the last axis (nn/functional/convolutions.py)\<close>

text \<open>
  \<open>FDilation1D.forward\<close>: the cache records whether the call is a no-op; otherwise a zero
  tensor whose last axis has length \<open>dilation * x.shape[-1] - 1\<close> is allocated (a negative
  extent raises) and \<open>x\<close> is stored at every \<open>dilation\<close>-th position.
\<close>

definition FDilation1D_forward ::
  "'a cache \<Rightarrow> ('a::zero) list batch \<Rightarrow> int \<Rightarrow> error + ('a list batch \<times> 'a cache)" where
  "FDilation1D_forward cache x dilation =
     (let cache1 = set_no_dilation (dilation = 1) cache in
      if dilation = 1 then Inr (x, cache1)
      else
        let dil_shape = dilation * int (last_dim x) - 1 in
        if dil_shape < 0 then Inl ValueError
        else
          let y = map_batch
                    (\<lambda>row. assign_strided (nat dilation) (replicate (nat dil_shape) 0) row) x
          in Inr (y, set_dilation dilation cache1))"

text \<open>\<open>FDilation1D.backward\<close>: \<open>dy\<close> itself when the forward call was a no-op, else the
  strided slice \<open>dy[..., ::dilation]\<close> (a step that was never stored is \<open>None\<close>, the whole
  axis).\<close>

definition FDilation1D_backward :: "'a cache \<Rightarrow> 'a list batch \<Rightarrow> error + 'a list batch" where
  "FDilation1D_backward cache dy =
     (if cache_no_dilation cache = Some True then Inr dy
      else case cache_dilation cache of
             None \<Rightarrow> Inr dy
           | Some d \<Rightarrow> if d = 0 then Inl ValueError else Inr (map_batch (py_stride d) dy))"

text \<open>\<open>dilate1d\<close>: the forward pass on a cache that keeps nothing.\<close>

definition dilate1d :: "('a::zero) list batch \<Rightarrow> int \<Rightarrow> error + 'a list batch" where
  "dilate1d x dilation = map_sum id fst (FDilation1D_forward PseudoCache x dilation)"

text \<open>
  Modelled from the spec: the primitive \<open>pad\<close> is not among the sources.  It "inserts
  \<open>widths[i]\<close> zeros before and after axis i's data"; a negative width is rejected.
\<close>

definition pad_row :: "nat \<Rightarrow> nat \<Rightarrow> ('a::zero) list \<Rightarrow> 'a list" where
  "pad_row n_before n_after r = replicate n_before 0 @ r @ replicate n_after 0"

text \<open>\<open>FPad1D.forward\<close>.\<close>

definition FPad1D_forward ::
  "'a cache \<Rightarrow> ('a::zero) list batch \<Rightarrow> int \<times> int \<Rightarrow> error + ('a list batch \<times> 'a cache)" where
  "FPad1D_forward cache x padding =
     (let cache1 = set_no_padding (padding = (0, 0)) cache in
      if padding = (0, 0) then Inr (x, cache1)
      else if fst padding < 0 \<or> snd padding < 0 then Inl ValueError
      else
        let y = map_batch (pad_row (nat (fst padding)) (nat (snd padding))) x
        in Inr (y, set_padding padding cache1))"

text \<open>\<open>FPad1D.backward\<close>: \<open>dy\<close> itself after a no-op, else the slice
  \<open>dy[..., padding[0] : -padding[0]]\<close>; subscripting a padding that was never stored
  raises.\<close>

definition FPad1D_backward :: "'a cache \<Rightarrow> 'a list batch \<Rightarrow> error + 'a list batch" where
  "FPad1D_backward cache dy =
     (if cache_no_padding cache = Some True then Inr dy
      else case cache_padding cache of
             None \<Rightarrow> Inl TypeError
           | Some padding \<Rightarrow> Inr (map_batch (py_slice (fst padding) (- fst padding)) dy))"

definition pad1d :: "('a::zero) list batch \<Rightarrow> int \<times> int \<Rightarrow> error + 'a list batch" where
  "pad1d x padding = map_sum id fst (FPad1D_forward PseudoCache x padding)"

section \<open>Convolution over the last axis (nn/functional.py)\<close>

text \<open>\<open>__dilate1d\<close>.\<close>

definition priv_dilate1d :: "('a::zero) list batch \<Rightarrow> int \<Rightarrow> error + 'a list batch" where
  "priv_dilate1d x dilation =
     (if dilation = 1 then Inr x
      else
        let dilated_shape = dilation * int (last_dim x) - 1 in
        if dilated_shape < 0 then Inl ValueError
        else Inr (map_batch
                    (\<lambda>row. assign_strided (nat dilation) (replicate (nat dilated_shape) 0) row) x))"

text \<open>\<open>__pad1d_from_str\<close>; \<open>//\<close> is floor division.\<close>

definition priv_pad1d_from_str :: "string \<Rightarrow> int \<Rightarrow> int \<times> int" where
  "priv_pad1d_from_str padding kernel_size =
     (if padding = ''causal'' then (kernel_size - 1, 0)
      else if padding = ''full'' then (kernel_size - 1, kernel_size - 1)
      else if padding = ''same'' then (kernel_size div 2, kernel_size div 2)
      else (0, 0))"

text \<open>\<open>__pad1d\<close>.\<close>

definition priv_pad1d :: "('a::zero) list batch \<Rightarrow> int \<times> int \<Rightarrow> error + 'a list batch" where
  "priv_pad1d x padding =
     (if fst padding < 0 \<or> snd padding < 0 then Inl ValueError
      else Inr (map_batch (pad_row (nat (fst padding)) (nat (snd padding))) x))"

text \<open>
  Modelled from the spec: the FFT primitives are not among the sources.  The chain
  \<open>(x.fft1d() * f.fft1d(n=x.shape[-1])).ifft1d().real()\<close> "computes circular convolution":
  the filter is cropped or zero-padded to the length of \<open>x\<close>, and entry \<open>i\<close> of the
  result is the sum of \<open>f[j] * x[(i - j) mod n]\<close>.
\<close>

definition fft_conv_row :: "('a::semiring_0) list \<Rightarrow> 'a list \<Rightarrow> 'a list" where
  "fft_conv_row x f =
     (let n = length x; fp = take n f @ replicate (n - length f) 0
      in map (\<lambda>i. \<Sum>j\<leftarrow>[0..<n]. fp ! j * x ! ((i + n - j) mod n)) [0..<n])"

text \<open>\<open>__convolve1d\<close>: the last \<open>out = x.shape[-1] - f.shape[-1] + 1\<close> entries of the
  circular convolution (the slice \<open>[-out:]\<close>), then every \<open>stride\<close>-th of them.\<close>

definition priv_convolve1d ::
  "('a::semiring_0) list batch \<Rightarrow> 'a list batch \<Rightarrow> int \<Rightarrow> error + 'a list batch" where
  "priv_convolve1d x f stride =
     (if last_dim x = 0 \<or> \<not> broadcastable x f then Inl ValueError
      else
        let conv = broadcast2 fft_conv_row x f;
            out = int (last_dim x) - int (last_dim f) + 1
        in if stride = 0 then Inl ValueError
           else Inr (map_batch (\<lambda>row. py_stride stride (py_slice_from (- out) row)) conv))"

text \<open>\<open>convolve1d\<close>.\<close>

definition convolve1d ::
  "('a::semiring_0) list batch \<Rightarrow> 'a list batch \<Rightarrow> string \<Rightarrow> int \<Rightarrow> int
     \<Rightarrow> error + 'a list batch" where
  "convolve1d x f padding stride dilation =
     (if ndim x \<noteq> ndim f then Inl ShapeError
      else
        case (if 1 < dilation then priv_dilate1d f dilation else Inr f) of
          Inl e \<Rightarrow> Inl e
        | Inr f1 \<Rightarrow>
            (case (if padding \<noteq> ''valid''
                   then priv_pad1d x (priv_pad1d_from_str padding (int (last_dim f1)))
                   else Inr x) of
               Inl e \<Rightarrow> Inl e
             | Inr x1 \<Rightarrow> priv_convolve1d x1 f1 stride))"

section \<open>Pooling over the last two axes (nn/functional/convolutions.py)\<close>

text \<open>\<open>x.shape\<close> and \<open>x.shape[-2:]\<close> of a tensor seen as a nest of matrices.\<close>

definition mat_shape :: "'a mat \<Rightarrow> nat \<times> nat" where
  "mat_shape m = (length m, (case m of [] \<Rightarrow> 0 | r # _ \<Rightarrow> length r))"

fun mshape :: "'a mat batch \<Rightarrow> nat list" where
  "mshape (Leaf m) = [fst (mat_shape m), snd (mat_shape m)]"
| "mshape (Batch []) = [0, 0, 0]"
| "mshape (Batch (t # ts)) = Suc (length ts) # mshape t"

fun last2_dims :: "'a mat batch \<Rightarrow> nat \<times> nat" where
  "last2_dims (Leaf m) = mat_shape m"
| "last2_dims (Batch []) = (0, 0)"
| "last2_dims (Batch (t # ts)) = last2_dims t"

text \<open>
  Modelled from the spec: the primitives \<open>repeat\<close> and \<open>pad_to_shape\<close> are not among the
  sources.  \<open>repeat(x, n, axis)\<close> "repeats each element \<open>n\<close> times" along the axis;
  \<open>pad_to_shape\<close> "zero-pads to exactly match a target shape", appending the zeros at the
  end of each axis, and a tensor that is already longer than the target along some axis
  cannot be padded to it.
\<close>

definition repeat_last :: "nat \<Rightarrow> 'a mat \<Rightarrow> 'a mat" where
  "repeat_last n m = map (\<lambda>r. concat (map (replicate n) r)) m"

definition repeat_rows :: "nat \<Rightarrow> 'a mat \<Rightarrow> 'a mat" where
  "repeat_rows n m = concat (map (replicate n) m)"

fun zeros_shape :: "nat list \<Rightarrow> ('a::zero) mat batch" where
  "zeros_shape [] = Leaf []"
| "zeros_shape [h] = Leaf (replicate h [])"
| "zeros_shape [h, w] = Leaf (replicate h (replicate w 0))"
| "zeros_shape (k # s) = Batch (replicate k (zeros_shape s))"

fun pad_end :: "nat list \<Rightarrow> ('a::zero) mat batch \<Rightarrow> 'a mat batch" where
  "pad_end s (Leaf m) =
     (case s of
        [h, w] \<Rightarrow> Leaf (map (\<lambda>r. r @ replicate (w - length r) 0) m
                         @ replicate (h - length m) (replicate w 0))
      | _ \<Rightarrow> Leaf m)"
| "pad_end s (Batch ts) =
     (case s of
        [] \<Rightarrow> Batch ts
      | k # s' \<Rightarrow> Batch (map (pad_end s') ts @ replicate (k - length ts) (zeros_shape s')))"

definition pad_to_shape :: "('a::zero) mat batch \<Rightarrow> nat list \<Rightarrow> error + 'a mat batch" where
  "pad_to_shape x shape =
     (if list_all2 (\<le>) (mshape x) shape then Inr (pad_end shape x) else Inl ValueError)"

text \<open>\<open>FUpsample2D.forward\<close>: \<open>repeat(repeat(x, f1, -1), f2, -2)\<close>, padded to \<open>shape\<close> when
  the shapes differ.\<close>

definition FUpsample2D_forward ::
  "('a::zero) mat batch \<Rightarrow> nat \<times> nat \<Rightarrow> nat list \<Rightarrow> error + 'a mat batch" where
  "FUpsample2D_forward x scaling_factors shape =
     (let f1 = fst scaling_factors; f2 = snd scaling_factors;
          x1 = map_batch (\<lambda>m. repeat_rows f2 (repeat_last f1 m)) x
      in if mshape x1 = shape then Inr x1 else pad_to_shape x1 shape)"

definition upsample2d ::
  "('a::zero) mat batch \<Rightarrow> nat \<times> nat \<Rightarrow> nat list \<Rightarrow> error + 'a mat batch" where
  "upsample2d x scaling_factors shape = FUpsample2D_forward x scaling_factors shape"

text \<open>
  The pooling windows: \<open>x_trunc.to_shape(pool_shape)\<close> splits the rows into groups of
  \<open>kernel_height\<close> and every row into pieces of \<open>kernel_width\<close>; the reduction over the axes
  \<open>(-3, -1)\<close> then runs over the rows of a group and the entries of a piece.
\<close>

definition chunks :: "nat \<Rightarrow> 'a list \<Rightarrow> 'a list list" where
  "chunks n xs = map (\<lambda>i. take n (drop (i * n) xs)) [0..<length xs div n]"

definition to_pool_shape :: "nat \<Rightarrow> nat \<Rightarrow> 'a mat \<Rightarrow> 'a list list list list" where
  "to_pool_shape kernel_height kernel_width x_trunc =
     map (map (chunks kernel_width)) (chunks kernel_height x_trunc)"

definition reduce_windows :: "('a list \<Rightarrow> 'a) \<Rightarrow> nat \<Rightarrow> 'a list list list list \<Rightarrow> 'a mat" where
  "reduce_windows red n_windows_x blocks =
     map (\<lambda>grp. map (\<lambda>j. red (concat (map (\<lambda>row. row ! j) grp))) [0..<n_windows_x]) blocks"

text \<open>The reductions \<open>max\<close> and \<open>mean\<close> over a window (never empty for a kernel of positive
  size; the value 0 on the empty list is out of reach).\<close>

fun cp_max :: "('a::{linorder,zero}) list \<Rightarrow> 'a" where
  "cp_max [] = 0"
| "cp_max (v # vs) = fold max vs v"

definition mean :: "('a::field) list \<Rightarrow> 'a" where
  "mean vs = sum_list vs / of_nat (length vs)"

text \<open>The forward pass both pooling functions share: truncation to a multiple of the kernel
  size, the reshape, the reduction.  A kernel extent of 0 divides by zero.\<close>

definition pool_forward ::
  "('a list \<Rightarrow> 'a) \<Rightarrow> 'a mat batch \<Rightarrow> nat \<times> nat \<Rightarrow> error + 'a mat batch" where
  "pool_forward red x kernel_size =
     (let x_height = fst (last2_dims x); x_width = snd (last2_dims x);
          kernel_height = fst kernel_size; kernel_width = snd kernel_size
      in if kernel_height = 0 \<or> kernel_width = 0 then Inl ZeroDivisionError
         else
           let trunc_y = x_height div kernel_height * kernel_height;
               trunc_x = x_width div kernel_width * kernel_width
           in Inr (map_batch
                 (\<lambda>m. reduce_windows red (x_width div kernel_width)
                        (to_pool_shape kernel_height kernel_width
                           (map (take trunc_x) (take trunc_y m)))) x))"

text \<open>\<open>FMaxPooling2D\<close>.\<close>

definition FMaxPooling2D_forward ::
  "'a cache \<Rightarrow> ('a::{linorder,zero}) mat batch \<Rightarrow> nat \<times> nat
     \<Rightarrow> error + ('a mat batch \<times> 'a cache)" where
  "FMaxPooling2D_forward cache x kernel_size =
     (case pool_forward cp_max x kernel_size of
        Inl e \<Rightarrow> Inl e
      | Inr y \<Rightarrow>
          Inr (y, if is_pseudo cache then cache
                  else cache\<lparr>cache_x := Some x, cache_kernel_size := Some kernel_size,
                             cache_y := Some y\<rparr>))"

definition FMaxPooling2D_backward ::
  "'a cache \<Rightarrow> ('a::{linorder,zero}) mat batch \<Rightarrow> error + 'a mat batch" where
  "FMaxPooling2D_backward cache dy =
     (case (cache_x cache, cache_kernel_size cache, cache_y cache) of
        (Some x, Some kernel_size, Some y) \<Rightarrow>
          (case upsample2d y kernel_size (mshape x) of
             Inl e \<Rightarrow> Inl e
           | Inr y_ups \<Rightarrow>
               (case upsample2d dy kernel_size (mshape x) of
                  Inl e \<Rightarrow> Inl e
                | Inr dy_ups \<Rightarrow>
                    Inr (broadcast2 (map2 (map2 (\<lambda>g keep. if keep then g else 0))) dy_ups
                           (broadcast2 (map2 (map2 (=))) x y_ups))))
      | _ \<Rightarrow> Inl TypeError)"

text \<open>\<open>FAvgPooling2D\<close>.\<close>

definition FAvgPooling2D_forward ::
  "'a cache \<Rightarrow> ('a::field) mat batch \<Rightarrow> nat \<times> nat \<Rightarrow> error + ('a mat batch \<times> 'a cache)" where
  "FAvgPooling2D_forward cache x kernel_size =
     (case pool_forward mean x kernel_size of
        Inl e \<Rightarrow> Inl e
      | Inr y \<Rightarrow>
          Inr (y, if is_pseudo cache then cache
                  else cache\<lparr>cache_x_shape := Some (mshape x),
                             cache_kernel_size := Some kernel_size\<rparr>))"

definition FAvgPooling2D_backward ::
  "'a cache \<Rightarrow> ('a::field) mat batch \<Rightarrow> error + 'a mat batch" where
  "FAvgPooling2D_backward cache dy =
     (case (cache_x_shape cache, cache_kernel_size cache) of
        (Some x_shape, Some kernel_size) \<Rightarrow>
          (case upsample2d dy kernel_size x_shape of
             Inl e \<Rightarrow> Inl e
           | Inr dy_ups \<Rightarrow>
               Inr (map_batch (map (map (\<lambda>g. g / of_nat (fst kernel_size * snd kernel_size))))
                      dy_ups))
      | _ \<Rightarrow> Inl TypeError)"

section \<open>Pooling over the last two axes (nn/functional.py)\<close>

text \<open>\<open>upsample2d\<close> with its default axes \<open>(-2, -1)\<close>: \<open>x.repeat(sf1, -2).repeat(sf2, -1)\<close>.\<close>

definition functional_upsample2d ::
  "('a::zero) mat batch \<Rightarrow> nat \<times> nat \<Rightarrow> nat list \<Rightarrow> error + 'a mat batch" where
  "functional_upsample2d x scaling_factors shape =
     (let sf1 = fst scaling_factors; sf2 = snd scaling_factors;
          x_str = map_batch (\<lambda>m. repeat_last sf2 (repeat_rows sf1 m)) x
      in if mshape x_str = shape then Inr x_str else pad_to_shape x_str shape)"

text \<open>\<open>maxpooling2d\<close>: the input has exactly four axes (\<open>B, C, Yi, Xi = x.shape\<close>); the
  backward function is a closure over \<open>x\<close> and the upsampled output.\<close>

definition functional_maxpooling2d ::
  "('a::{linorder,zero}) mat batch \<Rightarrow> nat \<times> nat \<Rightarrow> bool
     \<Rightarrow> error + ('a mat batch \<times> ('a mat batch \<Rightarrow> error + 'a mat batch) option)" where
  "functional_maxpooling2d x kernel_size return_backward_fn =
     (if length (mshape x) \<noteq> 4 then Inl ValueError
      else
        case pool_forward cp_max x kernel_size of
          Inl e \<Rightarrow> Inl e
        | Inr y \<Rightarrow>
            if return_backward_fn then
              (case functional_upsample2d y kernel_size (mshape x) of
                 Inl e \<Rightarrow> Inl e
               | Inr y_ups \<Rightarrow>
                   Inr (y, Some (\<lambda>dy.
                     case functional_upsample2d dy kernel_size (mshape x) of
                       Inl e \<Rightarrow> Inl e
                     | Inr dy_ups \<Rightarrow>
                         Inr (broadcast2 (map2 (map2 (\<lambda>g keep. if keep then g else 0))) dy_ups
                                (broadcast2 (map2 (map2 (=))) x y_ups)))))
            else Inr (y, None))"

section \<open>The linear transformation (nn/functional.py)\<close>

text \<open>A parameter tensor: its data and its \<open>requires_grad\<close> flag.\<close>

record 'd param =
  p_data :: 'd
  requires_grad :: bool

text \<open>
  Modelled from the spec: matrix product and transposition belong to the tensor primitive.
  \<open>a @ b\<close> multiplies the matrices held in the last two axes and broadcasts over the
  leading ones; \<open>t.T\<close> swaps the last two axes (the comment in \<open>linear\<close>:
  "(B, ..., Co, Bn) @ (B, ... , Bn, Ci)").
\<close>

definition n_cols :: "'a mat \<Rightarrow> nat" where
  "n_cols m = (case m of [] \<Rightarrow> 0 | r # _ \<Rightarrow> length r)"

definition mat_mul :: "('a::semiring_0) mat \<Rightarrow> 'a mat \<Rightarrow> 'a mat" where
  "mat_mul a b =
     map (\<lambda>r. map (\<lambda>j. \<Sum>k\<leftarrow>[0..<length b]. r ! k * b ! k ! j) [0..<n_cols b]) a"

definition mat_T :: "'a mat \<Rightarrow> 'a mat" where
  "mat_T m = map (\<lambda>j. map (\<lambda>r. r ! j) m) [0..<n_cols m]"

definition vec_add :: "('a::plus) list \<Rightarrow> 'a list \<Rightarrow> 'a list" where
  "vec_add u v = map2 (+) u v"

definition mat_add :: "('a::plus) mat \<Rightarrow> 'a mat \<Rightarrow> 'a mat" where
  "mat_add a b = map2 vec_add a b"

text \<open>The same tensor seen as a nest of rows: the row axis of every matrix becomes a leading
  axis.\<close>

fun rows_view :: "'a mat batch \<Rightarrow> 'a list batch" where
  "rows_view (Leaf m) = Batch (map Leaf m)"
| "rows_view (Batch ts) = Batch (map rows_view ts)"

text \<open>The backward function that \<open>linear\<close> builds: \<open>dx = dy @ w\<close>; \<open>dw = dy.T @ x\<close>,
  summed over the axes \<open>range(x.ndim - 2)\<close> when \<open>x.ndim > 2\<close>; \<open>db\<close> is \<open>dy\<close> summed over
  the axes \<open>range(x.ndim - 1)\<close>.  A gradient that is not asked for is \<open>None\<close>.\<close>

definition linear_backward ::
  "('a::semiring_0) mat batch \<Rightarrow> 'a mat param \<Rightarrow> 'a list param option \<Rightarrow> 'a mat batch
     \<Rightarrow> 'a mat batch \<times> 'a mat batch option \<times> 'a list batch option" where
  "linear_backward x w b dy =
     (let dx = broadcast2 mat_mul dy (Leaf (p_data w));
          x_ndim = length (mshape x);
          dw = (if requires_grad w then
                  let dw0 = broadcast2 mat_mul (map_batch mat_T dy) x
                  in Some (if 2 < x_ndim then sum_leading mat_add (x_ndim - 2) dw0 else dw0)
                else None);
          db = (case b of
                  None \<Rightarrow> None
                | Some bp \<Rightarrow>
                    if requires_grad bp
                    then Some (sum_leading vec_add (x_ndim - 1) (rows_view dy))
                    else None)
      in (dx, dw, db))"

text \<open>\<open>linear\<close>: \<open>y = x @ w.T\<close>, plus the bias on every row when there is one.\<close>

definition linear ::
  "('a::semiring_0) mat batch \<Rightarrow> 'a mat param \<Rightarrow> 'a list param option \<Rightarrow> bool
     \<Rightarrow> 'a mat batch
        \<times> ('a mat batch \<Rightarrow> 'a mat batch \<times> 'a mat batch option \<times> 'a list batch option) option"
  where
  "linear x w b return_backward_fn =
     (let y0 = broadcast2 mat_mul x (Leaf (mat_T (p_data w)));
          y = (case b of
                 None \<Rightarrow> y0
               | Some bp \<Rightarrow> map_batch (map (\<lambda>r. vec_add r (p_data bp))) y0)
      in (y, if return_backward_fn then Some (linear_backward x w b) else None))"

section \<open>Embedding lookup (nn/functional/embedding_funcs.py, nn/functional.py)\<close>

datatype dtype = Bool | Int8 | Int16 | Int32 | Int64 | Float16 | Float32 | Float64 | Complex64

text \<open>Modelled from the spec: \<open>is_integer\<close> is not among the sources; it accepts the "integer
  kind" of dtypes.\<close>

definition is_integer :: "dtype \<Rightarrow> bool" where
  "is_integer d = (d = Int8 \<or> d = Int16 \<or> d = Int32 \<or> d = Int64)"

text \<open>An index tensor: its dtype and its entries, as a nest of rows of indices.\<close>

record index_tensor =
  t_dtype :: dtype
  t_index :: "int list batch"

text \<open>
  Modelled from the spec: \<open>one_hot_encode\<close> is not among the sources.  It turns "an integer
  index into a unit basis vector of a given length", adding one trailing axis.
\<close>

definition one_hot :: "nat \<Rightarrow> int \<Rightarrow> ('a::{zero,one}) list" where
  "one_hot n i = map (\<lambda>j. if int j = i then 1 else 0) [0..<n]"

definition one_hot_encode :: "int list batch \<Rightarrow> nat \<Rightarrow> ('a::{zero,one}) mat batch" where
  "one_hot_encode x n = map_batch (map (one_hot n)) x"

text \<open>\<open>embedding_table[x]\<close>: the rows picked by an index tensor.  A negative index counts
  from the end and an index outside the table raises.\<close>

definition take_rows :: "'a mat \<Rightarrow> int list batch \<Rightarrow> error + 'a mat batch" where
  "take_rows table x =
     (let n = int (length table)
      in if list_all (\<lambda>i. - n \<le> i \<and> i < n) (concat (leaves x))
         then Inr (map_batch (map (\<lambda>i. table ! nat (if i < 0 then i + n else i))) x)
         else Inl IndexError)"

text \<open>The cache of \<open>embedding_funcs.py\<close> is a stack: \<open>push\<close> and \<open>pop\<close>.  The pseudo cache
  keeps nothing.\<close>

record stack_cache =
  sc_pseudo :: bool
  sc_items :: "(index_tensor \<times> nat \<times> nat) list"

definition push :: "index_tensor \<times> nat \<times> nat \<Rightarrow> stack_cache \<Rightarrow> stack_cache" where
  "push item c = (if sc_pseudo c then c else c\<lparr>sc_items := item # sc_items c\<rparr>)"

text \<open>\<open>EmbeddingFn.forward\<close>.\<close>

definition EmbeddingFn_forward ::
  "stack_cache \<Rightarrow> index_tensor \<Rightarrow> 'a mat \<Rightarrow> error + ('a mat batch \<times> stack_cache)" where
  "EmbeddingFn_forward cache x embedding_table =
     (if \<not> is_integer (t_dtype x) then Inl ValueError
      else
        case take_rows embedding_table (t_index x) of
          Inl e \<Rightarrow> Inl e
        | Inr y \<Rightarrow> Inr (y, push (x, mat_shape embedding_table) cache))"

text \<open>\<open>EmbeddingFn.backward\<close>: \<open>cp_sum(x.T @ dy, axis=tuple(range(x.n_axes - 2)))\<close> for the
  one-hot encoded \<open>x\<close>.\<close>

definition EmbeddingFn_backward ::
  "stack_cache \<Rightarrow> ('a::semiring_1) mat batch \<Rightarrow> error + ('a mat batch \<times> stack_cache)" where
  "EmbeddingFn_backward cache dy =
     (case sc_items cache of
        [] \<Rightarrow> Inl IndexError
      | (x, emb_table_shape) # rest \<Rightarrow>
          let x1 = one_hot_encode (t_index x) (fst emb_table_shape)
          in Inr (sum_leading mat_add (length (mshape x1) - 2)
                    (broadcast2 mat_mul (map_batch mat_T x1) dy),
                  cache\<lparr>sc_items := rest\<rparr>))"

text \<open>\<open>lookup_embedding\<close> of nn/functional.py: the gather is the product of the one-hot
  encoding with the table; the backward closure returns \<open>(x.T @ dy).sum(axis=0)\<close> when the
  table requires a gradient and \<open>None\<close> otherwise.\<close>

definition lookup_embedding_backward ::
  "('a::semiring_1) mat batch \<Rightarrow> 'a mat param \<Rightarrow> 'a mat batch \<Rightarrow> 'a list batch option" where
  "lookup_embedding_backward x1 embedding_table dy =
     (if requires_grad embedding_table
      then Some (sum_axis0 vec_add (rows_view (broadcast2 mat_mul (map_batch mat_T x1) dy)))
      else None)"

definition lookup_embedding ::
  "index_tensor \<Rightarrow> ('a::semiring_1) mat param \<Rightarrow> bool
     \<Rightarrow> error + ('a mat batch \<times> ('a mat batch \<Rightarrow> 'a list batch option) option)" where
  "lookup_embedding x embedding_table return_backward_fn =
     (if t_dtype x \<noteq> Int32 \<and> t_dtype x \<noteq> Int64 then Inl ValueError
      else
        let x1 = one_hot_encode (t_index x) (length (p_data embedding_table));
            y = broadcast2 mat_mul x1 (Leaf (p_data embedding_table))
        in Inr (y, if return_backward_fn
                   then Some (lookup_embedding_backward x1 embedding_table)
                   else None))"

section \<open>The softmax family (nn/functional.py)\<close>

text \<open>
  Modelled from the spec: the reductions "along specified axes with optional keep-dims"
  belong to the tensor primitive.  Here a tensor is a nest of scalars.  An axis is an integer
  (negative ones count from the last axis) or a tuple of integers; an axis out of range or
  named twice is rejected.  With \<open>keepdims\<close> the reduced axis stays, with extent 1.
\<close>

datatype axis_like = Axis int | Axes "int list"

fun rank :: "'b batch \<Rightarrow> nat" where
  "rank (Leaf v) = 0"
| "rank (Batch []) = 1"
| "rank (Batch (t # ts)) = Suc (rank t)"

definition normalize_axes :: "nat \<Rightarrow> axis_like \<Rightarrow> error + nat list" where
  "normalize_axes n axis =
     (let given = (case axis of Axis a \<Rightarrow> [a] | Axes as \<Rightarrow> as);
          ks = map (\<lambda>a. nat (if a < 0 then a + int n else a)) given
      in if \<not> list_all (\<lambda>a. - int n \<le> a \<and> a < int n) given then Inl AxisError
         else if \<not> distinct ks then Inl ValueError
         else Inr ks)"

fun reduce_axis :: "('b \<Rightarrow> 'b \<Rightarrow> 'b) \<Rightarrow> nat \<Rightarrow> 'b batch \<Rightarrow> 'b batch" where
  "reduce_axis f k (Leaf v) = Leaf v"
| "reduce_axis f 0 (Batch ts) = Batch [sum_axis0 f (Batch ts)]"
| "reduce_axis f (Suc k) (Batch ts) = Batch (map (reduce_axis f k) ts)"

definition reduce_keepdims :: "('b \<Rightarrow> 'b \<Rightarrow> 'b) \<Rightarrow> nat list \<Rightarrow> 'b batch \<Rightarrow> 'b batch" where
  "reduce_keepdims f ks t = fold (reduce_axis f) ks t"

text \<open>\<open>softmax\<close>.\<close>

definition softmax :: "real batch \<Rightarrow> axis_like \<Rightarrow> error + real batch" where
  "softmax x axis =
     (case normalize_axes (rank x) axis of
        Inl e \<Rightarrow> Inl e
      | Inr ks \<Rightarrow>
          let x1 = map_batch exp (broadcast2 (-) x (reduce_keepdims max ks x))
          in Inr (broadcast2 (/) x1 (reduce_keepdims (+) ks x1)))"

text \<open>\<open>temperature_softmax\<close>: a temperature of 0 is rejected.\<close>

definition temperature_softmax :: "real batch \<Rightarrow> real \<Rightarrow> axis_like \<Rightarrow> error + real batch" where
  "temperature_softmax x temperature axis =
     (if temperature = 0 then Inl ValueError
      else
        case normalize_axes (rank x) axis of
          Inl e \<Rightarrow> Inl e
        | Inr ks \<Rightarrow>
            let x1 = map_batch exp
                       (map_batch (\<lambda>v. v / temperature)
                          (broadcast2 (-) x (reduce_keepdims max ks x)))
            in Inr (broadcast2 (/) x1 (reduce_keepdims (+) ks x1)))"

section \<open>Round trips\<close>

text \<open>The forward pass followed by the backward pass on the cache it leaves and on its own
  output, as the round-trip property of the spec runs them.\<close>

definition pad_then_unpad ::
  "'a cache \<Rightarrow> ('a::zero) list batch \<Rightarrow> int \<times> int \<Rightarrow> error + 'a list batch" where
  "pad_then_unpad cache x padding =
     (case FPad1D_forward cache x padding of
        Inl e \<Rightarrow> Inl e
      | Inr (y, cache1) \<Rightarrow> FPad1D_backward cache1 y)"

definition dilate_then_undilate ::
  "'a cache \<Rightarrow> ('a::zero) list batch \<Rightarrow> int \<Rightarrow> error + 'a list batch" where
  "dilate_then_undilate cache x dilation =
     (case FDilation1D_forward cache x dilation of
        Inl e \<Rightarrow> Inl e
      | Inr (y, cache1) \<Rightarrow> FDilation1D_backward cache1 y)"

text \<open>The gradient a pooling function returns for the input \<open>x\<close> and the incoming gradient
  \<open>dy\<close>: the forward pass on \<open>x\<close>, then the backward pass on the cache it leaves.\<close>

definition max_pool_grad ::
  "'a cache \<Rightarrow> ('a::{linorder,zero}) mat batch \<Rightarrow> nat \<times> nat \<Rightarrow> 'a mat batch
     \<Rightarrow> error + 'a mat batch" where
  "max_pool_grad cache x kernel_size dy =
     (case FMaxPooling2D_forward cache x kernel_size of
        Inl e \<Rightarrow> Inl e
      | Inr (y, cache1) \<Rightarrow> FMaxPooling2D_backward cache1 dy)"

definition avg_pool_grad ::
  "'a cache \<Rightarrow> ('a::field) mat batch \<Rightarrow> nat \<times> nat \<Rightarrow> 'a mat batch \<Rightarrow> error + 'a mat batch" where
  "avg_pool_grad cache x kernel_size dy =
     (case FAvgPooling2D_forward cache x kernel_size of
        Inl e \<Rightarrow> Inl e
      | Inr (y, cache1) \<Rightarrow> FAvgPooling2D_backward cache1 dy)"

section \<open>Facts about slices, dilation and padding\<close>

lemma length_assign_strided: "length (assign_strided k y x) = length y"
proof -
  have "length (fold (\<lambda>j acc. acc[j * k := x ! j]) js y) = length y" for js
    by (induction js arbitrary: y) auto
  then show ?thesis by (simp add: assign_strided_def)
qed

lemma nth_fold_update:
  assumes "0 < k" "i < length y"
  shows "fold (\<lambda>j acc. acc[j * k := x ! j]) [0..<m] y ! i =
         (if i mod k = 0 \<and> i div k < m then x ! (i div k) else y ! i)"
proof (induction m)
  case 0
  show ?case by simp
next
  case (Suc m)
  have len: "length (fold (\<lambda>j acc. acc[j * k := x ! j]) [0..<m] y) = length y" for m
    by (induction m) auto
  show ?case
  proof (cases "i = m * k")
    case True
    then show ?thesis using assms len by simp
  next
    case False
    have "\<not> (i mod k = 0 \<and> i div k = m)" using False assms by auto
    then show ?thesis
      using False Suc assms len less_Suc_eq by (auto simp add: nth_list_update)
  qed
qed

lemma nth_assign_strided:
  "0 < k \<Longrightarrow> i < length y \<Longrightarrow>
   assign_strided k y x ! i =
     (if i mod k = 0 \<and> i div k < length x then x ! (i div k) else y ! i)"
  by (simp add: assign_strided_def nth_fold_update)

text \<open>The row that the dilation code builds for a row \<open>r\<close> of length \<open>n \<ge> 1\<close> and a factor
  \<open>d \<ge> 2\<close>: it has \<open>d * n - 1\<close> entries, the entries of \<open>r\<close> at the multiples of \<open>d\<close> and
  zeros elsewhere.\<close>

lemma dilated_row:
  assumes "2 \<le> d" "r \<noteq> []"
  shows "assign_strided d (replicate (d * length r - 1) 0) r =
         map (\<lambda>i. if i mod d = 0 then r ! (i div d) else 0) [0..<d * length r - 1]"
proof (rule nth_equalityI)
  show "length (assign_strided d (replicate (d * length r - 1) 0) r) =
        length (map (\<lambda>i. if i mod d = 0 then r ! (i div d) else 0) [0..<d * length r - 1])"
    by (simp add: length_assign_strided)
next
  fix i
  assume "i < length (assign_strided d (replicate (d * length r - 1) 0) r)"
  then have i: "i < d * length r - 1" by (simp add: length_assign_strided)
  then have "i < d * length r" by simp
  then have "i div d < length r"
    using assms(1) by (simp add: less_mult_imp_div_less mult.commute)
  then show "assign_strided d (replicate (d * length r - 1) 0) r ! i =
        map (\<lambda>i. if i mod d = 0 then r ! (i div d) else 0) [0..<d * length r - 1] ! i"
    using assms i by (simp add: nth_assign_strided)
qed

lemma every_nth_dilated_row:
  assumes "2 \<le> d" "r \<noteq> []"
  shows "every_nth d (assign_strided d (replicate (d * length r - 1) 0) r) = r"
proof -
  have n: "0 < length r" using assms(2) by simp
  have "d * length r - 1 + d - 1 = length r * d + (d - 2)"
    using assms(1) n by (cases "d * length r") (auto simp: mult.commute)
  moreover have "(length r * d + (d - 2)) div d = length r + (d - 2) div d"
    using assms(1) by (subst div_mult_self3) auto
  moreover have "(d - 2) div d = 0"
    using assms(1) by simp
  ultimately have cnt: "(d * length r - 1 + d - 1) div d = length r" by simp
  show ?thesis
  proof (rule nth_equalityI)
    show "length (every_nth d (assign_strided d (replicate (d * length r - 1) 0) r)) = length r"
      using cnt by (simp add: every_nth_def length_assign_strided)
  next
    fix j
    assume "j < length (every_nth d (assign_strided d (replicate (d * length r - 1) 0) r))"
    then have j: "j < length r"
      using cnt by (simp add: every_nth_def length_assign_strided)
    have "j * d + d \<le> length r * d" using j
      by (metis Suc_leI mult_Suc mult_le_mono1 add.commute)
    then have "j * d < d * length r - 1" using assms(1) by (simp add: mult.commute)
    then show "every_nth d (assign_strided d (replicate (d * length r - 1) 0) r) ! j = r ! j"
      using assms j cnt
      by (simp add: every_nth_def length_assign_strided nth_assign_strided)
  qed
qed

lemma py_slice_pad_row_symmetric:
  assumes "0 < p"
  shows "py_slice (int p) (- int p) (pad_row p p r) = r"
proof -
  have b1: "slice_bound (length (pad_row p p r)) (int p) = p"
    by (simp add: slice_bound_def pad_row_def)
  have b2: "slice_bound (length (pad_row p p r)) (- int p) = p + length r"
    using assms by (simp add: slice_bound_def pad_row_def)
  show ?thesis
    unfolding py_slice_def Let_def b1 b2 by (simp add: pad_row_def)
qed

section \<open>Facts about well-formed tensors\<close>

lemma leaves_map_batch: "leaves (map_batch f t) = map f (leaves t)"
  by (induction t) (auto simp: map_concat comp_def cong: map_cong)

lemma has_bshape_map_batch:
  "has_bshape bs P t \<Longrightarrow> (\<And>b. P b \<Longrightarrow> Q (f b)) \<Longrightarrow> has_bshape bs Q (map_batch f t)"
proof (induction t arbitrary: bs)
  case (Leaf b)
  then show ?case by simp
next
  case (Batch ts)
  then show ?case by (auto split: list.splits simp: list_all_iff)
qed

lemma broadcast2_Leaf_right: "broadcast2 f t (Leaf b) = map_batch (\<lambda>a. f a b) t"
  by (induction t) auto

lemma length_leaves: "has_bshape bs P t \<Longrightarrow> length (leaves t) = prod_list bs"
proof (induction t arbitrary: bs)
  case (Leaf b)
  then show ?case by simp
next
  case (Batch ts)
  then obtain k bs' where bs: "bs = k # bs'" "length ts = k"
    and all: "\<And>t. t \<in> set ts \<Longrightarrow> has_bshape bs' P t"
    by (auto split: list.splits simp: list_all_iff)
  have "map (length \<circ> leaves) ts = replicate k (prod_list bs')"
    using Batch.IH all bs(2) by (auto simp: map_replicate_const [symmetric] intro!: map_cong)
  then show ?case
    using bs by (simp add: length_concat comp_def sum_list_replicate)
qed

lemma leaves_in_has_bshape: "has_bshape bs P t \<Longrightarrow> b \<in> set (leaves t) \<Longrightarrow> P b"
proof (induction t arbitrary: bs)
  case (Leaf b)
  then show ?case by simp
next
  case (Batch ts)
  then show ?case by (auto split: list.splits simp: list_all_iff)
qed

lemma map2_concat:
  "length xss = length yss \<Longrightarrow> (\<And>i. i < length xss \<Longrightarrow> length (xss ! i) = length (yss ! i)) \<Longrightarrow>
   concat (map2 (map2 f) xss yss) = map2 f (concat xss) (concat yss)"
proof (induction xss yss rule: list_induct2)
  case Nil
  then show ?case by simp
next
  case (Cons xs xss ys yss)
  have "length xs = length ys" using Cons.prems [of 0] by simp
  moreover have "concat (map2 (map2 f) xss yss) = map2 f (concat xss) (concat yss)"
    using Cons.IH Cons.prems [of "Suc i" for i] by auto
  ultimately show ?case by simp
qed

text \<open>Two tensors with the same leading extents are combined block by block.\<close>

lemma broadcast2_same_shape:
  assumes "has_bshape bs P t" "has_bshape bs Q u" "\<And>a b. P a \<Longrightarrow> Q b \<Longrightarrow> R (f a b)"
  shows "has_bshape bs R (broadcast2 f t u) \<and>
         leaves (broadcast2 f t u) = map2 f (leaves t) (leaves u)"
  using assms(1,2)
proof (induction t arbitrary: bs u)
  case (Leaf a)
  then obtain b where "u = Leaf b" by (cases u) (auto split: list.splits)
  then show ?case using Leaf assms(3) by simp
next
  case (Batch ts)
  then obtain k bs' where bs: "bs = k # bs'" "length ts = k"
    and allt: "\<And>t. t \<in> set ts \<Longrightarrow> has_bshape bs' P t"
    by (auto split: list.splits simp: list_all_iff)
  obtain us where u: "u = Batch us" using Batch.prems(2) bs by (cases u) auto
  have lenu: "length us = k" and allu: "\<And>v. v \<in> set us \<Longrightarrow> has_bshape bs' Q v"
    using Batch.prems(2) bs u by (auto simp: list_all_iff)
  have step: "has_bshape bs' R (broadcast2 f (ts ! i) (us ! i)) \<and>
       leaves (broadcast2 f (ts ! i) (us ! i)) = map2 f (leaves (ts ! i)) (leaves (us ! i))"
    if "i < k" for i
    using Batch.IH [of "ts ! i" bs' "us ! i"] allt allu that bs(2) lenu by simp
  have shape: "has_bshape bs R (broadcast2 f (Batch ts) u)"
    using bs lenu u step by (auto simp: list_all_length)
  have "map leaves (map2 (broadcast2 f) ts us) = map2 (map2 f) (map leaves ts) (map leaves us)"
    using bs(2) lenu step by (auto intro!: nth_equalityI)
  moreover have "concat (map2 (map2 f) (map leaves ts) (map leaves us)) =
                 map2 f (concat (map leaves ts)) (concat (map leaves us))"
  proof (rule map2_concat)
    show "length (map leaves ts) = length (map leaves us)" using bs(2) lenu by simp
  next
    fix i assume "i < length (map leaves ts)"
    then have i: "i < k" using bs(2) by simp
    have "length (leaves (ts ! i)) = prod_list bs'"
      using length_leaves allt i bs(2) by (metis nth_mem)
    moreover have "length (leaves (us ! i)) = prod_list bs'"
      using length_leaves allu i lenu by (metis nth_mem)
    ultimately show "length (map leaves ts ! i) = length (map leaves us ! i)"
      using i bs(2) lenu by simp
  qed
  ultimately have "leaves (broadcast2 f (Batch ts) u) = map2 f (leaves (Batch ts)) (leaves u)"
    using u bs(2) lenu by simp
  then show ?case using shape by simp
qed

section \<open>Facts about sums over leading axes\<close>

lemma sum_list_map2_add:
  fixes phi :: "'b \<Rightarrow> 'c::comm_monoid_add"
  shows "length as = length bs \<Longrightarrow>
    (\<And>a b. (a, b) \<in> set (zip as bs) \<Longrightarrow> phi (add a b) = phi a + phi b) \<Longrightarrow>
    (\<Sum>c\<leftarrow>map2 add as bs. phi c) = (\<Sum>a\<leftarrow>as. phi a) + (\<Sum>b\<leftarrow>bs. phi b)"
proof (induction as bs rule: list_induct2)
  case Nil
  then show ?case by simp
next
  case (Cons a as b bs)
  then show ?case by (simp add: ac_simps)
qed

lemma broadcast2_add_sum:
  fixes phi :: "'b \<Rightarrow> 'c::comm_monoid_add"
  assumes closed: "\<And>a b. P a \<Longrightarrow> P b \<Longrightarrow> P (add a b) \<and> phi (add a b) = phi a + phi b"
    and "has_bshape bs P t" "has_bshape bs P u"
  shows "has_bshape bs P (broadcast2 add t u) \<and>
         (\<Sum>b\<leftarrow>leaves (broadcast2 add t u). phi b) =
           (\<Sum>b\<leftarrow>leaves t. phi b) + (\<Sum>b\<leftarrow>leaves u. phi b)"
proof -
  have same: "has_bshape bs P (broadcast2 add t u) \<and>
      leaves (broadcast2 add t u) = map2 add (leaves t) (leaves u)"
    by (rule broadcast2_same_shape [OF assms(2,3)]) (simp add: closed)
  have len: "length (leaves t) = length (leaves u)"
    using assms(2,3) by (simp add: length_leaves)
  have "(\<Sum>c\<leftarrow>map2 add (leaves t) (leaves u). phi c) =
        (\<Sum>b\<leftarrow>leaves t. phi b) + (\<Sum>b\<leftarrow>leaves u. phi b)"
  proof (rule sum_list_map2_add [OF len])
    fix a b assume "(a, b) \<in> set (zip (leaves t) (leaves u))"
    then have ab: "a \<in> set (leaves t)" "b \<in> set (leaves u)"
      by (auto dest: set_zip_leftD set_zip_rightD)
    have "P a" by (rule leaves_in_has_bshape [OF assms(2) ab(1)])
    moreover have "P b" by (rule leaves_in_has_bshape [OF assms(3) ab(2)])
    ultimately show "phi (add a b) = phi a + phi b" using closed by simp
  qed
  then show ?thesis using same by simp
qed

lemma fold_broadcast2_sum:
  fixes phi :: "'b \<Rightarrow> 'c::comm_monoid_add"
  assumes closed: "\<And>a b. P a \<Longrightarrow> P b \<Longrightarrow> P (add a b) \<and> phi (add a b) = phi a + phi b"
  shows "has_bshape bs P acc \<Longrightarrow> (\<And>c. c \<in> set cs \<Longrightarrow> has_bshape bs P c) \<Longrightarrow>
     has_bshape bs P (fold (\<lambda>u acc. broadcast2 add acc u) cs acc) \<and>
     (\<Sum>b\<leftarrow>leaves (fold (\<lambda>u acc. broadcast2 add acc u) cs acc). phi b) =
       (\<Sum>b\<leftarrow>leaves acc. phi b) + (\<Sum>c\<leftarrow>cs. \<Sum>b\<leftarrow>leaves c. phi b)"
proof (induction cs arbitrary: acc)
  case Nil
  then show ?case by simp
next
  case (Cons c cs)
  have c: "has_bshape bs P c" using Cons.prems(2) by simp
  have step: "has_bshape bs P (broadcast2 add acc c) \<and>
      (\<Sum>b\<leftarrow>leaves (broadcast2 add acc c). phi b) =
        (\<Sum>b\<leftarrow>leaves acc. phi b) + (\<Sum>b\<leftarrow>leaves c. phi b)"
    by (rule broadcast2_add_sum [OF closed Cons.prems(1) c])
  have "has_bshape bs P (fold (\<lambda>u acc. broadcast2 add acc u) cs (broadcast2 add acc c)) \<and>
     (\<Sum>b\<leftarrow>leaves (fold (\<lambda>u acc. broadcast2 add acc u) cs (broadcast2 add acc c)). phi b) =
       (\<Sum>b\<leftarrow>leaves (broadcast2 add acc c). phi b) + (\<Sum>c\<leftarrow>cs. \<Sum>b\<leftarrow>leaves c. phi b)"
    using Cons.IH [of "broadcast2 add acc c"] step Cons.prems(2) by simp
  then show ?case using step by (simp add: ac_simps)
qed

lemma sum_list_map_concat:
  fixes phi :: "'b \<Rightarrow> 'c::comm_monoid_add"
  shows "(\<Sum>b\<leftarrow>concat xss. phi b) = (\<Sum>xs\<leftarrow>xss. \<Sum>b\<leftarrow>xs. phi b)"
  by (induction xss) auto

lemma sum_leading_Suc: "sum_leading add (Suc n) t = sum_leading add n (sum_axis0 add t)"
  by (simp add: sum_leading_def funpow_swap1)

text \<open>Summing out all the leading axes of a well-formed tensor with positive extents leaves
  one block, and every additive measurement of that block is the sum of the measurements of
  the blocks of the tensor.\<close>

lemma sum_leading_block:
  fixes phi :: "'b \<Rightarrow> 'c::comm_monoid_add"
  assumes closed: "\<And>a b. P a \<Longrightarrow> P b \<Longrightarrow> P (add a b) \<and> phi (add a b) = phi a + phi b"
  shows "has_bshape bs P t \<Longrightarrow> list_all (\<lambda>k. 0 < k) bs \<Longrightarrow>
     \<exists>g. sum_leading add (length bs) t = Leaf g \<and> P g \<and> phi g = (\<Sum>b\<leftarrow>leaves t. phi b)"
proof (induction bs arbitrary: t)
  case Nil
  then obtain b where "t = Leaf b" "P b" by (cases t) auto
  then show ?case by (simp add: sum_leading_def)
next
  case (Cons k bs)
  then obtain ts where t: "t = Batch ts" by (cases t) auto
  have k: "0 < k" "length ts = k" and all: "\<And>c. c \<in> set ts \<Longrightarrow> has_bshape bs P c"
    using Cons.prems t by (auto simp: list_all_iff)
  then obtain c cs where ts: "ts = c # cs" by (cases ts) auto
  let ?u = "fold (\<lambda>u acc. broadcast2 add acc u) cs c"
  have u: "has_bshape bs P ?u \<and>
     (\<Sum>b\<leftarrow>leaves ?u. phi b) = (\<Sum>b\<leftarrow>leaves c. phi b) + (\<Sum>c\<leftarrow>cs. \<Sum>b\<leftarrow>leaves c. phi b)"
    using fold_broadcast2_sum [of P add phi bs c cs] closed all ts by simp
  have "\<exists>g. sum_leading add (length bs) ?u = Leaf g \<and> P g \<and> phi g = (\<Sum>b\<leftarrow>leaves ?u. phi b)"
    using Cons.IH [of ?u] u Cons.prems(2) by simp
  moreover have "(\<Sum>b\<leftarrow>leaves t. phi b) = (\<Sum>b\<leftarrow>leaves ?u. phi b)"
    using u t ts by (simp add: sum_list_map_concat comp_def)
  ultimately show ?case using t ts by (simp add: sum_leading_Suc)
qed

section \<open>Facts about matrices\<close>

lemma is_mat_row: "is_mat h w m \<Longrightarrow> i < h \<Longrightarrow> length (m ! i) = w"
  by (auto simp: is_mat_def list_all_length)

lemma n_cols_is_mat: "is_mat h w m \<Longrightarrow> 0 < h \<Longrightarrow> n_cols m = w"
  by (cases m) (auto simp: is_mat_def n_cols_def)

lemma is_mat_mat_T: "is_mat h w m \<Longrightarrow> 0 < h \<Longrightarrow> is_mat w h (mat_T m)"
  by (simp add: mat_T_def n_cols_is_mat) (simp add: is_mat_def list_all_length)

lemma nth_mat_T: "is_mat h w m \<Longrightarrow> 0 < h \<Longrightarrow> j < w \<Longrightarrow> k < h \<Longrightarrow> mat_T m ! j ! k = m ! k ! j"
  by (simp add: mat_T_def n_cols_is_mat) (simp add: is_mat_def)

lemma is_mat_mat_mul:
  "is_mat a b m1 \<Longrightarrow> is_mat b c m2 \<Longrightarrow> 0 < b \<Longrightarrow> is_mat a c (mat_mul m1 m2)"
  by (simp add: mat_mul_def n_cols_is_mat) (simp add: is_mat_def list_all_length)

lemma nth_mat_mul:
  "is_mat a b m1 \<Longrightarrow> is_mat b c m2 \<Longrightarrow> 0 < b \<Longrightarrow> i < a \<Longrightarrow> j < c \<Longrightarrow>
   mat_mul m1 m2 ! i ! j = (\<Sum>k\<leftarrow>[0..<b]. m1 ! i ! k * m2 ! k ! j)"
  by (simp add: mat_mul_def n_cols_is_mat) (simp add: is_mat_def)

lemma vec_add_closed:
  "length u = n \<Longrightarrow> length v = n \<Longrightarrow>
   length (vec_add u v) = n \<and> (i < n \<longrightarrow> vec_add u v ! i = u ! i + v ! i)"
  by (simp add: vec_add_def)

lemma mat_add_closed:
  assumes "is_mat h w a" "is_mat h w b"
  shows "is_mat h w (mat_add a b) \<and> (i < h \<longrightarrow> j < w \<longrightarrow> mat_add a b ! i ! j = a ! i ! j + b ! i ! j)"
proof -
  have len: "length a = h" "length b = h" using assms by (simp_all add: is_mat_def)
  have rows: "\<And>k. k < h \<Longrightarrow> length (a ! k) = w \<and> length (b ! k) = w"
    using assms by (simp add: is_mat_row)
  have "is_mat h w (mat_add a b)"
    using len rows by (simp add: is_mat_def mat_add_def list_all_length vec_add_def)
  moreover have "mat_add a b ! i ! j = a ! i ! j + b ! i ! j" if "i < h" "j < w"
    using len rows [OF that(1)] that by (simp add: mat_add_def vec_add_def)
  ultimately show ?thesis by simp
qed

lemma length_mshape:
  "has_bshape bs P x \<Longrightarrow> list_all (\<lambda>k. 0 < k) bs \<Longrightarrow> length (mshape x) = length bs + 2"
proof (induction bs arbitrary: x)
  case Nil
  then show ?case by (cases x) auto
next
  case (Cons k bs)
  then obtain ts where x: "x = Batch ts" by (cases x) auto
  then obtain c cs where ts: "ts = c # cs" using Cons.prems by (cases ts) auto
  have "has_bshape bs P c" using Cons.prems x ts by simp
  then show ?case using Cons.IH [of c] Cons.prems(2) x ts by simp
qed

lemma concat_concat_map: "concat (concat (map f xs)) = concat (map (concat \<circ> f) xs)"
  by (induction xs) auto

lemma rows_view_shape:
  "has_bshape bs (is_mat h w) t \<Longrightarrow>
   has_bshape (bs @ [h]) (is_vec w) (rows_view t) \<and> leaves (rows_view t) = concat (leaves t)"
proof (induction t arbitrary: bs)
  case (Leaf m)
  then have m: "bs = []" "is_mat h w m" by simp_all
  have "concat (map leaves (map Leaf m)) = m"
    by (induction m) auto
  then show ?case using m by (simp add: is_mat_def is_vec_def list_all_iff comp_def)
next
  case (Batch ts)
  then obtain k bs' where bs: "bs = k # bs'" "length ts = k"
    and all: "\<And>c. c \<in> set ts \<Longrightarrow> has_bshape bs' (is_mat h w) c"
    by (auto split: list.splits simp: list_all_iff)
  have step: "\<And>c. c \<in> set ts \<Longrightarrow>
      has_bshape (bs' @ [h]) (is_vec w) (rows_view c) \<and> leaves (rows_view c) = concat (leaves c)"
    using Batch.IH all by blast
  have eq: "map (leaves \<circ> rows_view) ts = map (concat \<circ> leaves) ts"
    using step by (auto intro!: map_cong)
  have "concat (map (leaves \<circ> rows_view) ts) = concat (map (concat \<circ> leaves) ts)"
    by (rule arg_cong [OF eq])
  also have "\<dots> = concat (concat (map leaves ts))"
    by (simp add: concat_concat_map)
  finally have "concat (map (leaves \<circ> rows_view) ts) = concat (concat (map leaves ts))" .
  then show ?case using bs step by (simp add: list_all_iff comp_def)
qed

lemma is_mat_mat_add: "is_mat h w a \<Longrightarrow> is_mat h w b \<Longrightarrow> is_mat h w (mat_add a b)"
  using mat_add_closed [of h w a b] by simp

lemma nth_mat_add:
  "is_mat h w a \<Longrightarrow> is_mat h w b \<Longrightarrow> i < h \<Longrightarrow> j < w \<Longrightarrow>
   mat_add a b ! i ! j = a ! i ! j + b ! i ! j"
  using mat_add_closed [of h w a b i j] by simp

lemma map_map2_map1:
  "map h (map2 f (map g as) bs) = map (\<lambda>(p, q). h (f (g p) q)) (zip as bs)"
  by (simp add: zip_map1 split_def comp_def)

lemma sum_list_zip_cong:
  "(\<And>p q. p \<in> set as \<Longrightarrow> q \<in> set bs \<Longrightarrow> f p q = g p q) \<Longrightarrow>
   (\<Sum>(p, q)\<leftarrow>zip as bs. f p q) = (\<Sum>(p, q)\<leftarrow>zip as bs. g p q)"
proof (induction as arbitrary: bs)
  case Nil
  then show ?case by simp
next
  case (Cons a as)
  then show ?case by (cases bs) auto
qed

lemma sum_leading_mat:
  fixes t :: "('a::comm_monoid_add) mat batch"
  assumes "has_bshape bs (is_mat h w) t" "list_all (\<lambda>k. 0 < k) bs"
  shows "\<exists>G. sum_leading mat_add (length bs) t = Leaf G \<and> is_mat h w G \<and>
           (\<forall>i<h. \<forall>j<w. G ! i ! j = (\<Sum>m\<leftarrow>leaves t. m ! i ! j))"
proof -
  have closed0: "\<And>a b :: 'a mat. is_mat h w a \<Longrightarrow> is_mat h w b \<Longrightarrow>
      is_mat h w (mat_add a b) \<and> (\<lambda>_. 0 :: nat) (mat_add a b) = (\<lambda>_. 0) a + (\<lambda>_. 0) b"
    by (simp add: is_mat_mat_add)
  obtain G where G: "sum_leading mat_add (length bs) t = Leaf G" "is_mat h w G"
    using sum_leading_block [of "is_mat h w" mat_add "\<lambda>_. 0 :: nat" bs t, OF closed0 assms]
    by auto
  have "G ! i ! j = (\<Sum>m\<leftarrow>leaves t. m ! i ! j)" if ij: "i < h" "j < w" for i j
  proof -
    have closed: "\<And>a b :: 'a mat. is_mat h w a \<Longrightarrow> is_mat h w b \<Longrightarrow>
        is_mat h w (mat_add a b) \<and> mat_add a b ! i ! j = a ! i ! j + b ! i ! j"
      using ij by (simp add: is_mat_mat_add nth_mat_add)
    obtain g where "sum_leading mat_add (length bs) t = Leaf g"
      "g ! i ! j = (\<Sum>m\<leftarrow>leaves t. m ! i ! j)"
      using sum_leading_block [of "is_mat h w" mat_add "\<lambda>m. m ! i ! j" bs t, OF closed assms]
      by auto
    then show ?thesis using G(1) by simp
  qed
  then show ?thesis using G by blast
qed

lemma sum_leading_vec:
  fixes t :: "('a::comm_monoid_add) list batch"
  assumes "has_bshape bs (is_vec n) t" "list_all (\<lambda>k. 0 < k) bs"
  shows "\<exists>v. sum_leading vec_add (length bs) t = Leaf v \<and> is_vec n v \<and>
           (\<forall>i<n. v ! i = (\<Sum>r\<leftarrow>leaves t. r ! i))"
proof -
  have closed0: "\<And>a b :: 'a list. is_vec n a \<Longrightarrow> is_vec n b \<Longrightarrow>
      is_vec n (vec_add a b) \<and> (\<lambda>_. 0 :: nat) (vec_add a b) = (\<lambda>_. 0) a + (\<lambda>_. 0) b"
    by (simp add: vec_add_def is_vec_def)
  obtain v where v: "sum_leading vec_add (length bs) t = Leaf v" "is_vec n v"
    using sum_leading_block [of "is_vec n" vec_add "\<lambda>_. 0 :: nat" bs t, OF closed0 assms]
    by auto
  have "v ! i = (\<Sum>r\<leftarrow>leaves t. r ! i)" if i: "i < n" for i
  proof -
    have closed: "\<And>a b :: 'a list. is_vec n a \<Longrightarrow> is_vec n b \<Longrightarrow>
        is_vec n (vec_add a b) \<and> vec_add a b ! i = a ! i + b ! i"
      using i by (simp add: vec_add_def is_vec_def)
    obtain g where "sum_leading vec_add (length bs) t = Leaf g"
      "g ! i = (\<Sum>r\<leftarrow>leaves t. r ! i)"
      using sum_leading_block [of "is_vec n" vec_add "\<lambda>r. r ! i" bs t, OF closed assms]
      by auto
    then show ?thesis using v(1) by simp
  qed
  then show ?thesis using v by blast
qed

text \<open>The product of the transposed blocks of one tensor with the blocks of another, summed
  over all leading axes: the entries of the result are sums over all blocks and all rows.\<close>

lemma sum_leading_T_mul:
  fixes a :: "('a::semiring_0) mat batch"
  assumes "has_bshape bs (is_mat t m) a" "has_bshape bs (is_mat t n) b"
    "list_all (\<lambda>k. 0 < k) bs" "0 < t"
  shows "\<exists>G. sum_leading mat_add (length bs) (broadcast2 mat_mul (map_batch mat_T a) b) = Leaf G \<and>
           is_mat m n G \<and>
           (\<forall>i<m. \<forall>j<n. G ! i ! j =
              (\<Sum>(p, q)\<leftarrow>zip (leaves a) (leaves b). \<Sum>k\<leftarrow>[0..<t]. p ! k ! i * q ! k ! j))"
proof -
  have aT: "has_bshape bs (is_mat m t) (map_batch mat_T a)"
    by (rule has_bshape_map_batch [OF assms(1)]) (simp add: is_mat_mat_T assms(4))
  have prod: "has_bshape bs (is_mat m n) (broadcast2 mat_mul (map_batch mat_T a) b) \<and>
      leaves (broadcast2 mat_mul (map_batch mat_T a) b) =
        map2 mat_mul (leaves (map_batch mat_T a)) (leaves b)"
    by (rule broadcast2_same_shape [OF aT assms(2)]) (simp add: is_mat_mat_mul assms(4))
  obtain G where G: "sum_leading mat_add (length bs) (broadcast2 mat_mul (map_batch mat_T a) b) = Leaf G"
    "is_mat m n G"
    "\<forall>i<m. \<forall>j<n. G ! i ! j = (\<Sum>c\<leftarrow>leaves (broadcast2 mat_mul (map_batch mat_T a) b). c ! i ! j)"
    using sum_leading_mat [of bs m n "broadcast2 mat_mul (map_batch mat_T a) b"] prod assms(3)
    by blast
  have "(\<Sum>c\<leftarrow>leaves (broadcast2 mat_mul (map_batch mat_T a) b). c ! i ! j) =
        (\<Sum>(p, q)\<leftarrow>zip (leaves a) (leaves b). \<Sum>k\<leftarrow>[0..<t]. p ! k ! i * q ! k ! j)"
    if ij: "i < m" "j < n" for i j
  proof -
    have entry: "mat_mul (mat_T p) q ! i ! j = (\<Sum>k\<leftarrow>[0..<t]. p ! k ! i * q ! k ! j)"
      if mem: "p \<in> set (leaves a)" "q \<in> set (leaves b)" for p q
    proof -
      have p: "is_mat t m p" by (rule leaves_in_has_bshape [OF assms(1) mem(1)])
      have q: "is_mat t n q" by (rule leaves_in_has_bshape [OF assms(2) mem(2)])
      have "mat_mul (mat_T p) q ! i ! j = (\<Sum>k\<leftarrow>[0..<t]. mat_T p ! i ! k * q ! k ! j)"
        using nth_mat_mul [OF is_mat_mat_T [OF p assms(4)] q assms(4) ij] .
      also have "\<dots> = (\<Sum>k\<leftarrow>[0..<t]. p ! k ! i * q ! k ! j)"
        by (rule arg_cong [where f = sum_list], rule map_cong [OF refl])
           (simp add: nth_mat_T [OF p assms(4) ij(1)])
      finally show ?thesis .
    qed
    have "(\<Sum>c\<leftarrow>map2 mat_mul (map mat_T (leaves a)) (leaves b). c ! i ! j) =
          (\<Sum>(p, q)\<leftarrow>zip (leaves a) (leaves b). mat_mul (mat_T p) q ! i ! j)"
      by (simp only: map_map2_map1)
    also have "\<dots> = (\<Sum>(p, q)\<leftarrow>zip (leaves a) (leaves b). \<Sum>k\<leftarrow>[0..<t]. p ! k ! i * q ! k ! j)"
      by (rule sum_list_zip_cong) (rule entry)
    finally have "(\<Sum>c\<leftarrow>map2 mat_mul (map mat_T (leaves a)) (leaves b). c ! i ! j) =
          (\<Sum>(p, q)\<leftarrow>zip (leaves a) (leaves b). \<Sum>k\<leftarrow>[0..<t]. p ! k ! i * q ! k ! j)" .
    then show ?thesis using prod by (simp only: leaves_map_batch)
  qed
  then show ?thesis using G by auto
qed

section \<open>Facts about one-hot encodings\<close>

lemma sum_list_delta:
  fixes f :: "nat \<Rightarrow> 'a::semiring_1"
  shows "c < n \<Longrightarrow> (\<Sum>k\<leftarrow>[0..<n]. (if k = c then 1 else 0) * f k) = f c"
proof (induction n)
  case 0
  then show ?case by simp
next
  case (Suc n)
  show ?case
  proof (cases "c = n")
    case True
    have "(\<Sum>k\<leftarrow>[0..<n]. (if k = n then 1 else 0) * f k) = (\<Sum>k\<leftarrow>[0..<n]. 0)"
      by (rule arg_cong [where f = sum_list], rule map_cong [OF refl]) simp
    then show ?thesis using True by simp
  next
    case False
    then show ?thesis using Suc by simp
  qed
qed

lemma nth_one_hot: "k < n \<Longrightarrow> one_hot n i ! k = (if int k = i then 1 else 0)"
  by (simp add: one_hot_def)

lemma length_one_hot: "length (one_hot n i) = n"
  by (simp add: one_hot_def)

text \<open>The product of a one-hot row with the table is the row of the table it points at.\<close>

lemma one_hot_mat_mul:
  fixes table :: "('a::semiring_1) mat"
  assumes "is_mat v e table" "0 < v" "list_all (\<lambda>i. 0 \<le> i \<and> i < int v) r"
  shows "mat_mul (map (one_hot v) r) table = map (\<lambda>i. table ! nat i) r"
proof -
  have row: "map (\<lambda>j. \<Sum>k\<leftarrow>[0..<v]. one_hot v i ! k * table ! k ! j) [0..<e] = table ! nat i"
    if i: "0 \<le> i" "i < int v" for i
  proof (rule nth_equalityI)
    have len: "length (table ! nat i) = e"
      using assms(1) i by (simp add: is_mat_row)
    show "length (map (\<lambda>j. \<Sum>k\<leftarrow>[0..<v]. one_hot v i ! k * table ! k ! j) [0..<e]) =
          length (table ! nat i)"
      using len by simp
    fix j assume "j < length (map (\<lambda>j. \<Sum>k\<leftarrow>[0..<v]. one_hot v i ! k * table ! k ! j) [0..<e])"
    then have j: "j < e" by simp
    have "(\<Sum>k\<leftarrow>[0..<v]. one_hot v i ! k * table ! k ! j) =
          (\<Sum>k\<leftarrow>[0..<v]. (if k = nat i then 1 else 0) * table ! k ! j)"
      by (rule arg_cong [where f = sum_list], rule map_cong [OF refl])
         (use i in \<open>auto simp: nth_one_hot\<close>)
    also have "\<dots> = table ! nat i ! j"
      using i by (intro sum_list_delta) simp
    finally show "map (\<lambda>j. \<Sum>k\<leftarrow>[0..<v]. one_hot v i ! k * table ! k ! j) [0..<e] ! j =
          table ! nat i ! j"
      using j by simp
  qed
  have "length table = v" "n_cols table = e"
    using assms(1,2) by (simp_all add: n_cols_is_mat) (simp add: is_mat_def)
  then show ?thesis
    using assms(3) row by (simp add: mat_mul_def list_all_iff)
qed

lemma is_mat_one_hot_rows: "is_vec t r \<Longrightarrow> is_mat t v (map (one_hot v) r)"
  by (simp add: is_mat_def is_vec_def list_all_iff length_one_hot)

text \<open>Row \<open>v\<close> of \<open>one_hot(r).T @ d\<close> collects the rows of \<open>d\<close> at the positions where the
  index is \<open>v\<close>.\<close>

lemma one_hot_scatter_sum:
  fixes d :: "('a::semiring_1) mat"
  assumes "length r = t" "length d = t" "v < n"
  shows "(\<Sum>k\<leftarrow>[0..<t]. map (one_hot n) r ! k ! v * d ! k ! e) =
         (\<Sum>(i, g)\<leftarrow>zip r d. if i = int v then g ! e else 0)"
proof -
  have "zip r d = map (\<lambda>k. (r ! k, d ! k)) [0..<t]"
    using assms(1,2) by (auto intro!: nth_equalityI)
  then have "(\<Sum>(i, g)\<leftarrow>zip r d. if i = int v then g ! e else 0) =
      (\<Sum>k\<leftarrow>[0..<t]. if r ! k = int v then d ! k ! e else 0)"
    by (simp add: comp_def)
  moreover have "(\<Sum>k\<leftarrow>[0..<t]. map (one_hot n) r ! k ! v * d ! k ! e) =
      (\<Sum>k\<leftarrow>[0..<t]. if r ! k = int v then d ! k ! e else 0)"
    by (rule arg_cong [where f = sum_list], rule map_cong [OF refl])
       (use assms in \<open>auto simp: nth_one_hot\<close>)
  ultimately show ?thesis by simp
qed

section \<open>Facts about the embedding gradient\<close>

lemma set_leaves: "set (leaves t) = set_batch t"
  by (induction t) auto

lemma one_hot_encode_shape:
  assumes "has_bshape bs (is_vec t) idx"
  shows "has_bshape bs (is_mat t v) (one_hot_encode idx v)"
  using has_bshape_map_batch [OF assms, of "is_mat t v" "map (one_hot v)"]
  by (simp add: one_hot_encode_def is_mat_one_hot_rows)

text \<open>The gather as a matrix product: multiplying the one-hot encoding with the table picks
  the rows of the table.\<close>

lemma one_hot_gather:
  fixes table :: "('a::semiring_1) mat"
  assumes "is_mat v e table" "0 < v"
    and "list_all (\<lambda>i. 0 \<le> i \<and> i < int v) (concat (leaves idx))"
  shows "broadcast2 mat_mul (one_hot_encode idx v) (Leaf table) =
         map_batch (map (\<lambda>i. table ! nat i)) idx"
proof -
  have "map_batch ((\<lambda>m. mat_mul m table) \<circ> map (one_hot v)) idx =
        map_batch (map (\<lambda>i. table ! nat i)) idx"
  proof (rule batch.map_cong [OF refl])
    fix r assume "r \<in> set_batch idx"
    then have "r \<in> set (leaves idx)" by (simp add: set_leaves)
    then have "list_all (\<lambda>i. 0 \<le> i \<and> i < int v) r"
      using assms(3) by (auto simp: list_all_iff)
    then show "((\<lambda>m. mat_mul m table) \<circ> map (one_hot v)) r = map (\<lambda>i. table ! nat i) r"
      using one_hot_mat_mul [OF assms(1,2)] by simp
  qed
  then show ?thesis
    by (simp add: broadcast2_Leaf_right one_hot_encode_def batch.map_comp)
qed

text \<open>The scatter: \<open>one_hot(idx).T @ dy\<close> summed over all leading axes is one matrix with a
  row per table row; row \<open>i\<close> is the sum of the rows of \<open>dy\<close> at the positions whose index is
  \<open>i\<close>.\<close>

lemma one_hot_scatter:
  fixes dy :: "('a::semiring_1) mat batch"
  assumes "has_bshape bs (is_vec t) idx" "has_bshape bs (is_mat t e) dy"
    "list_all (\<lambda>k. 0 < k) bs" "0 < t"
  shows "\<exists>G. sum_leading mat_add (length bs)
               (broadcast2 mat_mul (map_batch mat_T (one_hot_encode idx v)) dy) = Leaf G \<and>
           is_mat v e G \<and>
           (\<forall>i<v. \<forall>j<e. G ! i ! j =
              (\<Sum>(r, d)\<leftarrow>zip (leaves idx) (leaves dy).
                 \<Sum>(k, g)\<leftarrow>zip r d. if k = int i then g ! j else 0))"
proof -
  have x1: "has_bshape bs (is_mat t v) (one_hot_encode idx v)"
    by (rule one_hot_encode_shape [OF assms(1)])
  obtain G where G: "sum_leading mat_add (length bs)
        (broadcast2 mat_mul (map_batch mat_T (one_hot_encode idx v)) dy) = Leaf G"
    "is_mat v e G"
    "\<forall>i<v. \<forall>j<e. G ! i ! j =
        (\<Sum>(p, q)\<leftarrow>zip (leaves (one_hot_encode idx v)) (leaves dy).
           \<Sum>k\<leftarrow>[0..<t]. p ! k ! i * q ! k ! j)"
    using sum_leading_T_mul [OF x1 assms(2,3,4)] by blast
  have "(\<Sum>(p, q)\<leftarrow>zip (leaves (one_hot_encode idx v)) (leaves dy).
           \<Sum>k\<leftarrow>[0..<t]. p ! k ! i * q ! k ! j) =
        (\<Sum>(r, d)\<leftarrow>zip (leaves idx) (leaves dy).
           \<Sum>(k, g)\<leftarrow>zip r d. if k = int i then g ! j else 0)"
    if i: "i < v" for i j
  proof -
    have "(\<Sum>(p, q)\<leftarrow>zip (leaves (one_hot_encode idx v)) (leaves dy).
             \<Sum>k\<leftarrow>[0..<t]. p ! k ! i * q ! k ! j) =
          (\<Sum>(r, d)\<leftarrow>zip (leaves idx) (leaves dy).
             \<Sum>k\<leftarrow>[0..<t]. map (one_hot v) r ! k ! i * d ! k ! j)"
      by (simp add: one_hot_encode_def leaves_map_batch zip_map1 split_def comp_def)
    also have "\<dots> = (\<Sum>(r, d)\<leftarrow>zip (leaves idx) (leaves dy).
             \<Sum>(k, g)\<leftarrow>zip r d. if k = int i then g ! j else 0)"
    proof (rule sum_list_zip_cong)
      fix r d assume mem: "r \<in> set (leaves idx)" "d \<in> set (leaves dy)"
      have "is_vec t r" by (rule leaves_in_has_bshape [OF assms(1) mem(1)])
      then have r: "length r = t" by (simp add: is_vec_def)
      have "is_mat t e d" by (rule leaves_in_has_bshape [OF assms(2) mem(2)])
      then have d: "length d = t" by (simp add: is_mat_def)
      show "(\<Sum>k\<leftarrow>[0..<t]. map (one_hot v) r ! k ! i * d ! k ! j) =
            (\<Sum>(k, g)\<leftarrow>zip r d. if k = int i then g ! j else 0)"
        by (rule one_hot_scatter_sum [OF r d i])
    qed
    finally show ?thesis .
  qed
  then show ?thesis using G by auto
qed

text \<open>For a tensor with one leading axis, summing the rows view over its first axis is summing
  the matrices.\<close>

lemma rows_view_mat_add:
  "is_mat h w a \<Longrightarrow> is_mat h w b \<Longrightarrow>
   broadcast2 vec_add (rows_view (Leaf a)) (rows_view (Leaf b)) = rows_view (Leaf (mat_add a b))"
  by (simp add: is_mat_def mat_add_def zip_map_map split_def comp_def)

lemma fold_rows_view:
  "is_mat h w a \<Longrightarrow> list_all (is_mat h w) ms \<Longrightarrow>
   fold (\<lambda>u acc. broadcast2 vec_add acc u) (map (rows_view \<circ> Leaf) ms) (rows_view (Leaf a)) =
   rows_view (fold (\<lambda>u acc. broadcast2 mat_add acc u) (map Leaf ms) (Leaf a))"
proof (induction ms arbitrary: a)
  case Nil
  then show ?case by simp
next
  case (Cons m ms)
  have m: "is_mat h w m" "list_all (is_mat h w) ms" using Cons.prems(2) by simp_all
  have "is_mat h w (mat_add a m)" by (rule is_mat_mat_add [OF Cons.prems(1) m(1)])
  then show ?case
    using Cons.IH [of "mat_add a m"] m rows_view_mat_add [OF Cons.prems(1) m(1)] by simp
qed

lemma one_axis_leaves: "has_bshape [b] P t \<Longrightarrow> t = Batch (map Leaf (leaves t))"
proof (cases t)
  case (Leaf x)
  assume "has_bshape [b] P t"
  then show ?thesis using Leaf by simp
next
  case (Batch ts)
  assume "has_bshape [b] P t"
  then have all: "\<forall>c\<in>set ts. has_bshape [] P c"
    using Batch by (auto simp: list_all_iff)
  have "(\<forall>c\<in>set ts. has_bshape [] P c) \<longrightarrow> map Leaf (concat (map leaves ts)) = ts"
  proof (induction ts)
    case Nil
    show ?case by simp
  next
    case (Cons c cs)
    show ?case using Cons.IH by (cases c) auto
  qed
  then have "map Leaf (concat (map leaves ts)) = ts" using all by simp
  then show ?thesis using Batch by simp
qed

lemma sum_axis0_rows_view:
  assumes "has_bshape [b] (is_mat h w) t" "0 < b"
  shows "sum_axis0 vec_add (rows_view t) = rows_view (sum_axis0 mat_add t)"
proof -
  have t: "t = Batch (map Leaf (leaves t))" by (rule one_axis_leaves [OF assms(1)])
  have all: "list_all (is_mat h w) (leaves t)"
    using leaves_in_has_bshape [OF assms(1)] by (simp add: list_all_iff)
  have "length (leaves t) = b" using length_leaves [OF assms(1)] by simp
  then obtain m ms where ms: "leaves t = m # ms" using assms(2) by (cases "leaves t") auto
  have "sum_axis0 vec_add (rows_view (Batch (map Leaf (m # ms)))) =
        rows_view (sum_axis0 mat_add (Batch (map Leaf (m # ms))))"
    using fold_rows_view [of h w m ms] all ms by (simp add: comp_def)
  then show ?thesis using t ms by simp
qed

section \<open>Identity no-ops\<close>

text \<open>
  C4.  Padding with widths (0, 0) and dilating by the factor 1 are exact identities: on any
  recording cache the forward pass returns its input and the backward pass run on the cache
  the forward pass left behind returns the incoming gradient, for tensors of every shape.
\<close>

theorem identity_noops:
  "\<not> is_pseudo c \<Longrightarrow>
     (\<exists>c1. FPad1D_forward c x (0, 0) = Inr (x, c1) \<and> FPad1D_backward c1 dy = Inr dy) \<and>
     (\<exists>c2. FDilation1D_forward c x 1 = Inr (x, c2) \<and> FDilation1D_backward c2 dy = Inr dy)"
  by (simp add: FPad1D_forward_def FPad1D_backward_def FDilation1D_forward_def
      FDilation1D_backward_def set_no_padding_def set_no_dilation_def)

theorem identity_noops_witness:
  "\<not> is_pseudo (FunctionCache :: int cache) \<and>
   (\<exists>c1. FPad1D_forward (FunctionCache :: int cache) (Batch [Leaf [1, 2], Leaf [3, 4]]) (0, 0)
            = Inr (Batch [Leaf [1, 2], Leaf [3, 4]], c1)
        \<and> FPad1D_backward c1 (Leaf [5 :: int]) = Inr (Leaf [5])) \<and>
   (\<exists>c2. FDilation1D_forward (FunctionCache :: int cache) (Batch [Leaf [1, 2], Leaf [3, 4]]) 1
            = Inr (Batch [Leaf [1, 2], Leaf [3, 4]], c2)
        \<and> FDilation1D_backward c2 (Leaf [5 :: int]) = Inr (Leaf [5]))"
proof -
  have h: "\<not> is_pseudo (FunctionCache :: int cache)"
    by (simp add: FunctionCache_def)
  show ?thesis
    using h identity_noops [OF h, of "Batch [Leaf [1, 2], Leaf [3, 4]]" "Leaf [5]"] by simp
qed

section \<open>Dilation\<close>

text \<open>
  C2.  The dilation forward pass does not produce the length \<open>d * (n - 1) + 1\<close> for a
  factor \<open>d \<ge> 3\<close>: the code allocates \<open>d * n - 1\<close> entries, so \<open>d - 2\<close> zeros trail the last
  element.  For the row \<open>[1, 2]\<close> and the factor 3 the result has five entries, not four.
\<close>

theorem dilate1d_factor3_length:
  "dilate1d (Leaf [1, 2 :: int]) 3 = Inr (Leaf [1, 0, 0, 2, 0]) \<and>
   last_dim (Leaf [1, 0, 0, 2, 0 :: int]) \<noteq> 3 * (2 - 1) + 1"
  by code_simp

lemma rows_of_has_bshape:
  "has_bshape bs (is_vec n) x \<Longrightarrow> r \<in> set_batch x \<Longrightarrow> length r = n"
proof (induction x arbitrary: bs)
  case (Leaf b)
  then show ?case by (simp add: is_vec_def)
next
  case (Batch ts)
  then show ?case by (auto split: list.splits simp: list_all_iff)
qed

text \<open>What the code does on a well-formed tensor with rows of length \<open>n \<ge> 1\<close> and a factor
  \<open>d \<ge> 2\<close>: every row gets \<open>d * n - 1\<close> entries, its own at the multiples of \<open>d\<close>.\<close>

lemma FDilation1D_forward_rows:
  assumes "2 \<le> d" "0 < n" "has_bshape bs (is_vec n) x" "last_dim x = n"
  shows "FDilation1D_forward c x (int d) =
         Inr (map_batch (\<lambda>r. map (\<lambda>i. if i mod d = 0 then r ! (i div d) else 0) [0..<d * n - 1]) x,
              set_dilation (int d) (set_no_dilation False c))"
proof -
  have "0 < d * n" using assms by simp
  then have pos: "\<not> int d * int n - 1 < 0" by (metis of_nat_mult of_nat_0_less_iff not_less zle_diff1_eq)
  have nat_eq: "nat (int d * int n - 1) = d * n - 1"
    by (metis nat_int of_nat_mult nat_diff_distrib' of_nat_0_le_iff nat_one_as_int of_nat_1)
  have "map_batch (\<lambda>row. assign_strided d (replicate (d * n - 1) 0) row) x =
        map_batch (\<lambda>r. map (\<lambda>i. if i mod d = 0 then r ! (i div d) else 0) [0..<d * n - 1]) x"
  proof (rule batch.map_cong [OF refl])
    fix r assume "r \<in> set_batch x"
    then have "length r = n" using assms(3) rows_of_has_bshape by blast
    then show "assign_strided d (replicate (d * n - 1) 0) r =
               map (\<lambda>i. if i mod d = 0 then r ! (i div d) else 0) [0..<d * n - 1]"
      using dilated_row [of d r] assms(1,2) by auto
  qed
  then show ?thesis
    using assms(1,4) pos nat_eq by (simp add: FDilation1D_forward_def Let_def)
qed

section \<open>Round trips of padding and dilation\<close>

text \<open>
  C3.  Padding and then un-padding does not return the tensor for asymmetric widths:
  \<open>FPad1D.backward\<close> cuts \<open>padding[0]\<close> entries from both ends.  For \<open>[1, 2, 3]\<close> and the
  widths (1, 2) the round trip returns \<open>[1, 2, 3, 0]\<close>; for the widths (0, 2) it returns
  the empty row.
\<close>

theorem pad_round_trip_asymmetric:
  "pad_then_unpad FunctionCache (Leaf [1, 2, 3 :: int]) (1, 2) = Inr (Leaf [1, 2, 3, 0]) \<and>
   pad_then_unpad FunctionCache (Leaf [1, 2, 3 :: int]) (0, 2) = Inr (Leaf [])"
  by code_simp

text \<open>The parts of the round-trip property that the code does satisfy: dilation by any
  factor \<open>d \<ge> 1\<close>, and padding with equal widths on both sides.\<close>

lemma dilation_round_trip:
  assumes "\<not> is_pseudo c" "1 \<le> d" "0 < n" "has_bshape bs (is_vec n) x" "last_dim x = n"
  shows "dilate_then_undilate c x (int d) = Inr x"
proof (cases "d = 1")
  case True
  then show ?thesis
    using assms(1)
    by (simp add: dilate_then_undilate_def FDilation1D_forward_def FDilation1D_backward_def
        set_no_dilation_def)
next
  case False
  then have d: "2 \<le> d" using assms(2) by simp
  have "0 < d * n" using assms d by simp
  then have pos: "\<not> int d * int n - 1 < 0"
    by (metis of_nat_mult of_nat_0_less_iff not_less zle_diff1_eq)
  have nat_eq: "nat (int d * int n - 1) = d * n - 1"
    by (metis nat_int of_nat_mult nat_diff_distrib' of_nat_0_le_iff nat_one_as_int of_nat_1)
  have rt: "map_batch (py_stride (int d))
                (map_batch (\<lambda>row. assign_strided d (replicate (d * n - 1) 0) row) x) = x"
  proof -
    have "map_batch (py_stride (int d) \<circ> (\<lambda>row. assign_strided d (replicate (d * n - 1) 0) row)) x
          = map_batch id x"
    proof (rule batch.map_cong [OF refl])
      fix r assume "r \<in> set_batch x"
      then have "length r = n" using assms(4) rows_of_has_bshape by blast
      then show "(py_stride (int d) \<circ> (\<lambda>row. assign_strided d (replicate (d * n - 1) 0) row)) r
                 = id r"
        using every_nth_dilated_row [of d r] d assms(3) by (auto simp: py_stride_def)
    qed
    then show ?thesis by (simp add: batch.map_comp batch.map_id)
  qed
  show ?thesis
    using assms(1,5) d False pos nat_eq rt
    by (simp add: dilate_then_undilate_def FDilation1D_forward_def FDilation1D_backward_def
        set_no_dilation_def set_dilation_def Let_def)
qed

lemma pad_round_trip_symmetric:
  assumes "\<not> is_pseudo c"
  shows "pad_then_unpad c x (int p, int p) = Inr x"
proof (cases "p = 0")
  case True
  then show ?thesis
    using assms
    by (simp add: pad_then_unpad_def FPad1D_forward_def FPad1D_backward_def set_no_padding_def)
next
  case False
  then have p: "0 < p" by simp
  have "map_batch (py_slice (int p) (- int p) \<circ> pad_row p p) x = map_batch id x"
    by (rule batch.map_cong [OF refl]) (simp add: py_slice_pad_row_symmetric [OF p])
  then have rt: "map_batch (py_slice (int p) (- int p)) (map_batch (pad_row p p) x) = x"
    by (simp add: batch.map_comp batch.map_id)
  show ?thesis
    using assms p rt
    by (simp add: pad_then_unpad_def FPad1D_forward_def FPad1D_backward_def set_no_padding_def
        set_padding_def Let_def)
qed

section \<open>The convolution shape law\<close>

text \<open>
  C1.  With "valid" padding the output length of \<open>convolve1d\<close> is not
  \<open>floor((L - (D * (K - 1) + 1)) / S) + 1\<close> for a dilation \<open>D \<ge> 3\<close>: the filter is dilated to
  \<open>D * K - 1\<close> entries.  For \<open>L = 10\<close>, \<open>K = 2\<close>, \<open>S = 1\<close>, \<open>D = 3\<close> the output has 6 entries
  where the law gives 7.
\<close>

theorem convolve1d_dilation3_length:
  "convolve1d (Leaf [1, 2, 3, 4, 5, 6, 7, 8, 9, 10 :: int]) (Leaf [1, 1]) ''valid'' 1 3
     = Inr (Leaf [7, 9, 11, 13, 15, 17]) \<and>
   int (last_dim (Leaf [7, 9, 11, 13, 15, 17 :: int])) \<noteq> (10 - (3 * (2 - 1) + 1)) div 1 + 1"
  by code_simp

section \<open>Pooling\<close>

text \<open>
  C6.  With a kernel that is not square the backward pass of \<open>FMaxPooling2D\<close> does not give
  the window gradient to the tied maxima: \<open>FUpsample2D\<close> repeats \<open>kernel_height\<close> times along
  the width and \<open>kernel_width\<close> times along the height.  For a 3 x 3 input whose one window
  (kernel (2, 3)) has its maximum 7 at two positions, both get the gradient 0.
\<close>

theorem max_pool_ties_nonsquare_kernel:
  "max_pool_grad FunctionCache (Leaf [[0, 0, 7], [0, 0, 7], [0, 0, 0 :: int]]) (2, 3) (Leaf [[1]])
     = Inr (Leaf [[0, 0, 0], [0, 0, 0], [0, 0, 0]])"
  by code_simp

text \<open>
  C7.  With a kernel that is not square the truncated positions do receive gradient.  For a
  3 x 3 input and the kernel (2, 3) the output is 1 x 1 and the third row is truncated, yet
  the backward pass of \<open>FAvgPooling2D\<close> writes the gradient into it (and leaves the third
  column, which is inside the window, at zero).
\<close>

theorem avg_pool_truncation_nonsquare_kernel:
  "FAvgPooling2D_forward FunctionCache (Leaf [[1, 2, 3], [4, 5, 6], [7, 8, 9 :: real]]) (2, 3)
     = Inr (Leaf [[7 / 2]],
            FunctionCache\<lparr>cache_x_shape := Some [3, 3], cache_kernel_size := Some (2, 3)\<rparr>) \<and>
   avg_pool_grad FunctionCache (Leaf [[1, 2, 3], [4, 5, 6], [7, 8, 9 :: real]]) (2, 3) (Leaf [[6]])
     = Inr (Leaf [[1, 1, 0], [1, 1, 0], [1, 1, 0]])"
  by code_simp

text \<open>
  C8.  For a kernel that is not square the backward pass of \<open>FAvgPooling2D\<close> does not spread
  the gradient over the window.  For a 2 x 3 input and the kernel (2, 3) the repeated gradient
  has the shape 3 x 2, which cannot be padded to 2 x 3: the call fails where the claim
  expects \<open>[[1, 1, 1], [1, 1, 1]]\<close>.
\<close>

theorem avg_pool_backward_nonsquare_kernel:
  "avg_pool_grad FunctionCache (Leaf [[1, 2, 3], [4, 5, 6 :: real]]) (2, 3) (Leaf [[6]])
     = Inl ValueError \<and>
   map_batch (\<lambda>m. repeat_rows 3 (repeat_last 2 m)) (Leaf [[6 :: real]])
     = Leaf [[6, 6], [6, 6], [6, 6]]"
  by code_simp

section \<open>Temperature softmax\<close>

text \<open>
  C10.  With the temperature 1, \<open>temperature_softmax\<close> returns what \<open>softmax\<close> returns, for
  every tensor and every axis argument (an axis that is rejected is rejected by both).
\<close>

theorem temperature_one_is_softmax:
  "temperature_softmax x 1 axis = softmax x axis"
proof -
  have div1: "map_batch (\<lambda>v. v) t = t" for t :: "real batch"
    by (simp add: batch.map_ident)
  show ?thesis
    by (cases "normalize_axes (rank x) axis")
       (simp_all add: temperature_softmax_def softmax_def div1 Let_def)
qed

theorem temperature_one_is_softmax_witness:
  "temperature_softmax (Batch [Leaf 0, Leaf 0]) 1 (Axis (- 1)) =
     Inr (Batch [Leaf (1 / 2), Leaf (1 / 2)])"
proof -
  have "softmax (Batch [Leaf 0, Leaf 0]) (Axis (- 1)) = Inr (Batch [Leaf (1 / 2), Leaf (1 / 2)])"
    by (simp add: softmax_def normalize_axes_def reduce_keepdims_def)
  then show ?thesis
    using temperature_one_is_softmax [of "Batch [Leaf 0, Leaf 0]" "Axis (- 1)"] by simp
qed

section \<open>The gradients of the linear transformation\<close>

lemma sum_list_rows_nth:
  fixes d :: "('a::comm_monoid_add) mat"
  shows "length d = t \<Longrightarrow> (\<Sum>r\<leftarrow>d. r ! i) = (\<Sum>k\<leftarrow>[0..<t]. d ! k ! i)"
proof -
  assume "length d = t"
  then have "map (\<lambda>r. r ! i) d = map (\<lambda>k. d ! k ! i) [0..<t]"
    by (auto intro!: nth_equalityI)
  then show ?thesis by simp
qed

text \<open>
  C5.  For an input \<open>x\<close> with more than two axes (leading extents \<open>bs\<close>, all positive, then
  \<open>t\<close> rows of \<open>cin\<close> entries), a weight of shape \<open>(cout, cin)\<close> and a gradient \<open>dy\<close> of the
  shape of the output, the backward function that \<open>linear\<close> returns gives: \<open>dx\<close>, block by
  block \<open>dy @ w\<close>; \<open>dw\<close>, one \<open>cout x cin\<close> matrix whose entries are the entries of
  \<open>dy.T @ x\<close> summed over all leading axes, or \<open>None\<close> when \<open>w\<close> does not require a gradient;
  \<open>db\<close>, one vector of length \<open>cout\<close> holding \<open>dy\<close> summed over all axes but the last, or
  \<open>None\<close> when there is no bias or it does not require a gradient.
\<close>

theorem linear_backward_gradients:
  fixes x :: "('a::semiring_0) mat batch"
  assumes "bs \<noteq> []" "list_all (\<lambda>k. 0 < k) bs" "0 < t" "0 < cout"
    and "has_bshape bs (is_mat t cin) x" "has_bshape bs (is_mat t cout) dy"
    and "is_mat cout cin (p_data w)"
  shows "\<exists>y bw dx dw db.
      linear x w b True = (y, Some bw) \<and> bw dy = (dx, dw, db) \<and>
      has_bshape bs (is_mat t cin) dx \<and>
      leaves dx = map (\<lambda>d. mat_mul d (p_data w)) (leaves dy) \<and>
      (if requires_grad w
       then \<exists>G. dw = Some (Leaf G) \<and> is_mat cout cin G \<and>
              (\<forall>i<cout. \<forall>j<cin. G ! i ! j =
                 (\<Sum>(d, xm)\<leftarrow>zip (leaves dy) (leaves x). \<Sum>k\<leftarrow>[0..<t]. d ! k ! i * xm ! k ! j))
       else dw = None) \<and>
      (if (case b of None \<Rightarrow> False | Some bp \<Rightarrow> requires_grad bp)
       then \<exists>v. db = Some (Leaf v) \<and> is_vec cout v \<and>
              (\<forall>i<cout. v ! i = (\<Sum>d\<leftarrow>leaves dy. \<Sum>k\<leftarrow>[0..<t]. d ! k ! i))
       else db = None)"
proof -
  have nd: "length (mshape x) = length bs + 2"
    by (rule length_mshape [OF assms(5,2)])
  have nd2: "2 < length (mshape x)" using nd assms(1) by (cases bs) auto
  let ?dx = "broadcast2 mat_mul dy (Leaf (p_data w))"
  have dx_shape: "has_bshape bs (is_mat t cin) ?dx"
    unfolding broadcast2_Leaf_right
    by (rule has_bshape_map_batch [OF assms(6)]) (simp add: is_mat_mat_mul [OF _ assms(7,4)])
  have dx_leaves: "leaves ?dx = map (\<lambda>d. mat_mul d (p_data w)) (leaves dy)"
    by (simp add: broadcast2_Leaf_right leaves_map_batch)
  obtain G where G: "sum_leading mat_add (length bs) (broadcast2 mat_mul (map_batch mat_T dy) x) = Leaf G"
    "is_mat cout cin G"
    "\<forall>i<cout. \<forall>j<cin. G ! i ! j =
        (\<Sum>(d, xm)\<leftarrow>zip (leaves dy) (leaves x). \<Sum>k\<leftarrow>[0..<t]. d ! k ! i * xm ! k ! j)"
    using sum_leading_T_mul [OF assms(6,5,2,3)] by blast
  have rows: "has_bshape (bs @ [t]) (is_vec cout) (rows_view dy)"
    "leaves (rows_view dy) = concat (leaves dy)"
    using rows_view_shape [OF assms(6)] by simp_all
  have pos: "list_all (\<lambda>k. 0 < k) (bs @ [t])" using assms(2,3) by simp
  obtain v where v: "sum_leading vec_add (length (bs @ [t])) (rows_view dy) = Leaf v"
    "is_vec cout v" "\<forall>i<cout. v ! i = (\<Sum>r\<leftarrow>leaves (rows_view dy). r ! i)"
    using sum_leading_vec [OF rows(1) pos] by blast
  have "(\<Sum>r\<leftarrow>concat (leaves dy). r ! i) = (\<Sum>d\<leftarrow>leaves dy. \<Sum>k\<leftarrow>[0..<t]. d ! k ! i)" for i
  proof -
    have "(\<Sum>r\<leftarrow>concat (leaves dy). r ! i) = (\<Sum>d\<leftarrow>leaves dy. \<Sum>r\<leftarrow>d. r ! i)"
      by (rule sum_list_map_concat)
    also have "\<dots> = (\<Sum>d\<leftarrow>leaves dy. \<Sum>k\<leftarrow>[0..<t]. d ! k ! i)"
    proof (rule arg_cong [where f = sum_list], rule map_cong [OF refl])
      fix d assume "d \<in> set (leaves dy)"
      then have "is_mat t cout d" by (rule leaves_in_has_bshape [OF assms(6)])
      then have "length d = t" by (simp add: is_mat_def)
      then show "(\<Sum>r\<leftarrow>d. r ! i) = (\<Sum>k\<leftarrow>[0..<t]. d ! k ! i)" by (rule sum_list_rows_nth)
    qed
    finally show ?thesis .
  qed
  then have v_entries: "\<forall>i<cout. v ! i = (\<Sum>d\<leftarrow>leaves dy. \<Sum>k\<leftarrow>[0..<t]. d ! k ! i)"
    using v(3) rows(2) by simp
  have n1: "length (mshape x) - 2 = length bs" "length (mshape x) - 1 = length (bs @ [t])"
    using nd by simp_all
  let ?dw = "if requires_grad w then Some (Leaf G) else None"
  let ?db = "case b of None \<Rightarrow> None
             | Some bp \<Rightarrow> if requires_grad bp then Some (Leaf v) else None"
  let ?y = "case b of None \<Rightarrow> broadcast2 mat_mul x (Leaf (mat_T (p_data w)))
            | Some bp \<Rightarrow> map_batch (map (\<lambda>r. vec_add r (p_data bp)))
                         (broadcast2 mat_mul x (Leaf (mat_T (p_data w))))"
  have lb: "linear_backward x w b dy = (?dx, ?dw, ?db)"
    unfolding linear_backward_def Let_def n1 G(1) v(1) using nd2 by simp
  show ?thesis
  proof (intro exI conjI)
    show "linear x w b True = (?y, Some (linear_backward x w b))"
      by (simp add: linear_def Let_def)
    show "linear_backward x w b dy = (?dx, ?dw, ?db)" by (rule lb)
    show "has_bshape bs (is_mat t cin) ?dx" by (rule dx_shape)
    show "leaves ?dx = map (\<lambda>d. mat_mul d (p_data w)) (leaves dy)" by (rule dx_leaves)
    show "if requires_grad w
       then \<exists>G'. ?dw = Some (Leaf G') \<and> is_mat cout cin G' \<and>
              (\<forall>i<cout. \<forall>j<cin. G' ! i ! j =
                 (\<Sum>(d, xm)\<leftarrow>zip (leaves dy) (leaves x). \<Sum>k\<leftarrow>[0..<t]. d ! k ! i * xm ! k ! j))
       else ?dw = None"
      using G(2,3) by simp
    show "if (case b of None \<Rightarrow> False | Some bp \<Rightarrow> requires_grad bp)
       then \<exists>v'. ?db = Some (Leaf v') \<and> is_vec cout v' \<and>
              (\<forall>i<cout. v' ! i = (\<Sum>d\<leftarrow>leaves dy. \<Sum>k\<leftarrow>[0..<t]. d ! k ! i))
       else ?db = None"
      using v(2) v_entries by (cases b) simp_all
  qed
qed

theorem linear_backward_gradients_witness:
  "has_bshape [2] (is_mat 1 2) (Batch [Leaf [[1, 2]], Leaf [[3, 4 :: int]]]) \<and>
   has_bshape [2] (is_mat 1 1) (Batch [Leaf [[1]], Leaf [[10 :: int]]]) \<and>
   is_mat 1 2 [[1, 1 :: int]] \<and>
   (\<exists>y bw dx dw db.
      linear (Batch [Leaf [[1, 2]], Leaf [[3, 4 :: int]]])
        \<lparr>p_data = [[1, 1]], requires_grad = True\<rparr>
        (Some \<lparr>p_data = [0], requires_grad = True\<rparr>) True = (y, Some bw) \<and>
      bw (Batch [Leaf [[1]], Leaf [[10]]]) = (dx, dw, db) \<and>
      leaves dx = [[[1, 1]], [[10, 10]]] \<and>
      (\<exists>G. dw = Some (Leaf G) \<and> is_mat 1 2 G \<and> G ! 0 ! 0 = 31 \<and> G ! 0 ! 1 = 42) \<and>
      (\<exists>v. db = Some (Leaf v) \<and> is_vec 1 v \<and> v ! 0 = 11))"
proof -
  have h1: "has_bshape [2] (is_mat 1 2) (Batch [Leaf [[1, 2]], Leaf [[3, 4 :: int]]])"
    by (simp add: is_mat_def)
  have h2: "has_bshape [2] (is_mat 1 1) (Batch [Leaf [[1]], Leaf [[10 :: int]]])"
    by (simp add: is_mat_def)
  have h3: "is_mat 1 2 (p_data \<lparr>p_data = [[1, 1 :: int]], requires_grad = True\<rparr>)"
    by (simp add: is_mat_def)
  have h4: "[2 :: nat] \<noteq> []" "list_all (\<lambda>k. 0 < k) [2 :: nat]" "0 < (1 :: nat)"
    by simp_all
  have mm: "mat_mul [[1]] [[1, 1 :: int]] = [[1, 1]]" "mat_mul [[10]] [[1, 1 :: int]] = [[10, 10]]"
    by (simp_all add: mat_mul_def n_cols_def)
  show ?thesis
    using h1 h2 h3
      linear_backward_gradients [OF h4(1,2,3) h4(3) h1 h2 h3,
        of "Some \<lparr>p_data = [0], requires_grad = True\<rparr>"]
    by (auto simp: mm)
qed

section \<open>Embedding gather and scatter\<close>

text \<open>
  C9.  The gather is right, the scatter of \<open>lookup_embedding\<close> is not: its backward function
  returns \<open>(x.T @ dy).sum(axis=0)\<close>, whatever the number of axes of the index tensor.  For the
  index row \<open>[0, 0, 1]\<close>, a table of three rows and \<open>dy = [[1], [2], [4]]\<close> the product
  \<open>x.T @ dy\<close> is already the table gradient \<open>[[3], [4], [0]]\<close> (row 0 accumulates 1 + 2, row 2
  is never referenced), and the sum over axis 0 collapses it to \<open>[7]\<close>.  \<open>EmbeddingFn\<close>, which
  sums over the axes \<open>range(x.n_axes - 2)\<close>, returns the table gradient on the same input.
\<close>

theorem lookup_embedding_rank1_gradient:
  "(\<exists>bw. lookup_embedding \<lparr>t_dtype = Int64, t_index = Leaf [0, 0, 1]\<rparr>
            \<lparr>p_data = [[10], [20], [30 :: int]], requires_grad = True\<rparr> True
          = Inr (Leaf [[10], [10], [20]], Some bw) \<and>
         bw (Leaf [[1], [2], [4]]) = Some (Leaf [7]) \<and>
         bw (Leaf [[1], [2], [4]]) \<noteq> Some (rows_view (Leaf [[3], [4], [0]]))) \<and>
   (\<exists>c1. EmbeddingFn_forward \<lparr>sc_pseudo = False, sc_items = []\<rparr>
            \<lparr>t_dtype = Int64, t_index = Leaf [0, 0, 1]\<rparr> [[10], [20], [30 :: int]]
          = Inr (Leaf [[10], [10], [20]], c1) \<and>
         EmbeddingFn_backward c1 (Leaf [[1], [2], [4]])
          = Inr (Leaf [[3], [4], [0]], \<lparr>sc_pseudo = False, sc_items = []\<rparr>))"
  by (simp add: lookup_embedding_def lookup_embedding_backward_def one_hot_encode_def
      one_hot_def mat_mul_def mat_T_def n_cols_def vec_add_def mat_add_def Let_def
      EmbeddingFn_forward_def EmbeddingFn_backward_def take_rows_def push_def mat_shape_def
      sum_leading_def is_integer_def)

text \<open>
  Further behaviour of \<open>lookup_embedding\<close>: it accepts only the dtypes int32 and int64; its
  backward function returns \<open>None\<close> when the table does not require a gradient; and for an
  index tensor with three axes the sum over axis 0 leaves a leading axis on the result.
\<close>

lemma lookup_embedding_rejects_dtype:
  "t_dtype x \<noteq> Int32 \<Longrightarrow> t_dtype x \<noteq> Int64 \<Longrightarrow>
     lookup_embedding x embedding_table return_backward_fn = Inl ValueError"
  by (simp add: lookup_embedding_def)

lemma lookup_embedding_other_inputs:
  "lookup_embedding \<lparr>t_dtype = Int16, t_index = Batch [Leaf [0]]\<rparr>
      \<lparr>p_data = [[1], [2 :: int]], requires_grad = True\<rparr> True = Inl ValueError \<and>
   (\<exists>y bw. lookup_embedding \<lparr>t_dtype = Int64, t_index = Batch [Leaf [0, 0], Leaf [1, 0]]\<rparr>
              \<lparr>p_data = [[1], [2 :: int]], requires_grad = False\<rparr> True = Inr (y, Some bw) \<and>
            bw (Batch [Leaf [[5], [7]], Leaf [[11], [13]]]) = None) \<and>
   (\<exists>y bw. lookup_embedding
              \<lparr>t_dtype = Int64, t_index = Batch [Batch [Leaf [0, 0]], Batch [Leaf [1, 0]]]\<rparr>
              \<lparr>p_data = [[1], [2 :: int]], requires_grad = True\<rparr> True = Inr (y, Some bw) \<and>
            bw (Batch [Batch [Leaf [[5], [7]]], Batch [Leaf [[11], [13]]]])
              = Some (Batch [Batch [Leaf [25], Leaf [11]]]) \<and>
            bw (Batch [Batch [Leaf [[5], [7]]], Batch [Leaf [[11], [13]]]])
              \<noteq> Some (rows_view (Leaf [[25], [11]])))"
  by (simp add: lookup_embedding_def lookup_embedding_backward_def one_hot_encode_def
      one_hot_def mat_mul_def mat_T_def n_cols_def vec_add_def Let_def)

text \<open>
  Where the code does gather and scatter as intended.  For an index tensor of an integer
  dtype with at least one leading axis (leading extents \<open>bs\<close>, rows of \<open>t\<close> indices, all in
  \<open>[0, v)\<close>), a table of \<open>v\<close> rows and a gradient \<open>dy\<close> of the shape of the output: the
  forward pass of \<open>EmbeddingFn\<close> returns the table rows the indices select, which is
  \<open>one_hot(x, v) @ table\<close>, and its backward pass returns one \<open>v x e\<close> matrix \<open>G\<close>, row \<open>i\<close>
  being the sum of the rows of \<open>dy\<close> at all positions whose index is \<open>i\<close> (repeated indices
  accumulate, rows never referenced are zero).  \<open>lookup_embedding\<close> returns the same rows
  when the dtype is int32 or int64; its backward function returns the same \<open>G\<close> when the
  table requires a gradient and the index tensor has exactly two axes, the one rank at which
  axis 0 is the only leading axis.
\<close>

lemma embedding_gather_scatter_two_axes:
  fixes table :: "('a::semiring_1) mat"
  assumes "is_integer (t_dtype x)"
    and "has_bshape bs (is_vec t) (t_index x)" "list_all (\<lambda>k. 0 < k) bs" "0 < t" "0 < v"
    and "list_all (\<lambda>i. 0 \<le> i \<and> i < int v) (concat (leaves (t_index x)))"
    and "is_mat v e table" "has_bshape bs (is_mat t e) dy" "\<not> sc_pseudo c"
    and "rows = map_batch (map (\<lambda>i. table ! nat i)) (t_index x)"
  shows "\<exists>G. is_mat v e G \<and>
     (\<forall>i<v. \<forall>j<e. G ! i ! j =
        (\<Sum>(r, d)\<leftarrow>zip (leaves (t_index x)) (leaves dy).
           \<Sum>(k, g)\<leftarrow>zip r d. if k = int i then g ! j else 0)) \<and>
     rows = broadcast2 mat_mul (one_hot_encode (t_index x) v) (Leaf table) \<and>
     (\<exists>c1. EmbeddingFn_forward c x table = Inr (rows, c1) \<and>
           EmbeddingFn_backward c1 dy = Inr (Leaf G, c)) \<and>
     (t_dtype x = Int32 \<or> t_dtype x = Int64 \<longrightarrow>
        (\<exists>bw. lookup_embedding x \<lparr>p_data = table, requires_grad = rg\<rparr> True = Inr (rows, Some bw) \<and>
              (if rg then length bs = 1 \<longrightarrow> bw dy = Some (rows_view (Leaf G))
               else bw dy = None)))"
proof -
  let ?x1 = "one_hot_encode (t_index x) v :: 'a mat batch"
  let ?prod = "broadcast2 mat_mul (map_batch mat_T ?x1) dy"
  obtain G where G: "sum_leading mat_add (length bs) ?prod = Leaf G" "is_mat v e G"
    "\<forall>i<v. \<forall>j<e. G ! i ! j =
        (\<Sum>(r, d)\<leftarrow>zip (leaves (t_index x)) (leaves dy).
           \<Sum>(k, g)\<leftarrow>zip r d. if k = int i then g ! j else 0)"
    using one_hot_scatter [OF assms(2,8,3,4), of v] by blast
  have gather: "rows = broadcast2 mat_mul ?x1 (Leaf table)"
    using one_hot_gather [OF assms(7,5,6)] assms(10) by simp
  have len: "length table = v" using assms(7) by (simp add: is_mat_def)
  have inr: "0 \<le> i \<and> i < int v" if "i \<in> set (concat (leaves (t_index x)))" for i
    using assms(6) that unfolding list_all_iff by blast
  have range: "list_all (\<lambda>i. - int (length table) \<le> i \<and> i < int (length table))
                 (concat (leaves (t_index x)))"
    unfolding list_all_iff using inr len by fastforce
  have nonneg: "\<And>i. i \<in> set (concat (leaves (t_index x))) \<Longrightarrow> \<not> i < 0"
    using inr by fastforce
  have "map_batch (map (\<lambda>i. table ! nat (if i < 0 then i + int (length table) else i))) (t_index x)
        = map_batch (map (\<lambda>i. table ! nat i)) (t_index x)"
  proof (rule batch.map_cong [OF refl], rule map_cong [OF refl])
    fix r i assume "r \<in> set_batch (t_index x)" "i \<in> set r"
    then have "i \<in> set (concat (leaves (t_index x)))" by (auto simp: set_leaves)
    then show "table ! nat (if i < 0 then i + int (length table) else i) = table ! nat i"
      using nonneg by simp
  qed
  then have take: "take_rows table (t_index x) = Inr rows"
    using range assms(10) by (simp add: take_rows_def Let_def)
  let ?c1 = "push (x, mat_shape table) c"
  have fwd: "EmbeddingFn_forward c x table = Inr (rows, ?c1)"
    using assms(1) take by (simp add: EmbeddingFn_forward_def)
  have sh: "has_bshape bs (is_mat t v) ?x1"
    by (rule one_hot_encode_shape [OF assms(2)])
  have nd: "length (mshape ?x1) - 2 = length bs"
    using length_mshape [OF sh assms(3)] by simp
  have bwd: "EmbeddingFn_backward ?c1 dy = Inr (Leaf G, c)"
    using assms(9) G(1) nd len
    by (simp add: EmbeddingFn_backward_def push_def mat_shape_def Let_def)
  have lookup: "lookup_embedding x \<lparr>p_data = table, requires_grad = rg\<rparr> True =
        Inr (rows, Some (lookup_embedding_backward ?x1 \<lparr>p_data = table, requires_grad = rg\<rparr>))"
    if "t_dtype x = Int32 \<or> t_dtype x = Int64"
    using that gather len by (auto simp: lookup_embedding_def Let_def)
  have no_grad: "lookup_embedding_backward ?x1 \<lparr>p_data = table, requires_grad = False\<rparr> dy = None"
    by (simp add: lookup_embedding_backward_def)
  have grad: "lookup_embedding_backward ?x1 \<lparr>p_data = table, requires_grad = True\<rparr> dy =
        Some (rows_view (Leaf G))" if one: "length bs = 1"
  proof -
    obtain b where bs: "bs = [b]" using one by (cases bs) auto
    have b: "0 < b" using assms(3) bs by simp
    have x1T: "has_bshape [b] (is_mat v t) (map_batch mat_T ?x1)"
      using has_bshape_map_batch [OF sh, of "is_mat v t" mat_T] bs assms(4)
      by (simp add: is_mat_mat_T)
    have dyb: "has_bshape [b] (is_mat t e) dy" using assms(8) bs by simp
    have prod: "has_bshape [b] (is_mat v e) ?prod"
      using broadcast2_same_shape [OF x1T dyb, of "is_mat v e" mat_mul] assms(4)
      by (simp add: is_mat_mat_mul)
    have "sum_axis0 vec_add (rows_view ?prod) = rows_view (sum_axis0 mat_add ?prod)"
      by (rule sum_axis0_rows_view [OF prod b])
    moreover have "sum_axis0 mat_add ?prod = Leaf G"
      using G(1) bs by (simp add: sum_leading_def)
    ultimately show ?thesis by (simp add: lookup_embedding_backward_def)
  qed
  show ?thesis
  proof (intro exI conjI impI)
    show "is_mat v e G" by (rule G(2))
    show "\<forall>i<v. \<forall>j<e. G ! i ! j =
        (\<Sum>(r, d)\<leftarrow>zip (leaves (t_index x)) (leaves dy).
           \<Sum>(k, g)\<leftarrow>zip r d. if k = int i then g ! j else 0)" by (rule G(3))
    show "rows = broadcast2 mat_mul ?x1 (Leaf table)" by (rule gather)
    show "EmbeddingFn_forward c x table = Inr (rows, ?c1)" by (rule fwd)
    show "EmbeddingFn_backward ?c1 dy = Inr (Leaf G, c)" by (rule bwd)
    assume "t_dtype x = Int32 \<or> t_dtype x = Int64"
    then show "lookup_embedding x \<lparr>p_data = table, requires_grad = rg\<rparr> True =
        Inr (rows, Some (lookup_embedding_backward ?x1 \<lparr>p_data = table, requires_grad = rg\<rparr>))"
      by (rule lookup)
    show "if rg then length bs = 1 \<longrightarrow>
            lookup_embedding_backward ?x1 \<lparr>p_data = table, requires_grad = rg\<rparr> dy
              = Some (rows_view (Leaf G))
          else lookup_embedding_backward ?x1 \<lparr>p_data = table, requires_grad = rg\<rparr> dy = None"
      using grad no_grad by (cases rg) simp_all
  qed
qed

lemma embedding_gather_scatter_example:
  "is_integer Int64 \<and>
   has_bshape [1] (is_vec 3) (Batch [Leaf [0, 0, 1 :: int]]) \<and>
   list_all (\<lambda>i. 0 \<le> i \<and> i < int 3) (concat (leaves (Batch [Leaf [0, 0, 1 :: int]]))) \<and>
   is_mat 3 1 [[10], [20], [30 :: int]] \<and>
   has_bshape [1] (is_mat 3 1) (Batch [Leaf [[1], [2], [4 :: int]]]) \<and>
   (\<exists>G :: int mat. G ! 0 ! 0 = 3 \<and> G ! 1 ! 0 = 4 \<and> G ! 2 ! 0 = 0 \<and> is_mat 3 1 G \<and>
      (\<exists>c1. EmbeddingFn_forward \<lparr>sc_pseudo = False, sc_items = []\<rparr>
               \<lparr>t_dtype = Int64, t_index = Batch [Leaf [0, 0, 1]]\<rparr> [[10], [20], [30 :: int]]
               = Inr (Batch [Leaf [[10], [10], [20]]], c1) \<and>
            EmbeddingFn_backward c1 (Batch [Leaf [[1], [2], [4]]])
               = Inr (Leaf G, \<lparr>sc_pseudo = False, sc_items = []\<rparr>)) \<and>
      (\<exists>bw. lookup_embedding \<lparr>t_dtype = Int64, t_index = Batch [Leaf [0, 0, 1]]\<rparr>
               \<lparr>p_data = [[10], [20], [30]], requires_grad = True\<rparr> True
               = Inr (Batch [Leaf [[10], [10], [20]]], Some bw) \<and>
            bw (Batch [Leaf [[1], [2], [4]]]) = Some (rows_view (Leaf G))))"
proof -
  let ?x = "\<lparr>t_dtype = Int64, t_index = Batch [Leaf [0, 0, 1 :: int]]\<rparr>"
  let ?c = "\<lparr>sc_pseudo = False, sc_items = []\<rparr>"
  let ?dy = "Batch [Leaf [[1], [2], [4 :: int]]]"
  let ?table = "[[10], [20], [30 :: int]]"
  have h1: "is_integer (t_dtype ?x)" by (simp add: is_integer_def)
  have h2: "has_bshape [1] (is_vec 3) (t_index ?x)" by (simp add: is_vec_def)
  have h3: "list_all (\<lambda>k. 0 < k) [1 :: nat]" "0 < (3 :: nat)" by simp_all
  have h6: "list_all (\<lambda>i. 0 \<le> i \<and> i < int 3) (concat (leaves (t_index ?x)))" by simp
  have h7: "is_mat 3 1 ?table" by (simp add: is_mat_def)
  have h8: "has_bshape [1] (is_mat 3 1) ?dy" by (simp add: is_mat_def)
  have h9: "\<not> sc_pseudo ?c" by simp
  have h10: "Batch [Leaf [[10], [10], [20 :: int]]] =
             map_batch (map (\<lambda>i. ?table ! nat i)) (t_index ?x)" by simp
  obtain G where G: "is_mat 3 1 G"
    "\<forall>i<3. \<forall>j<1. G ! i ! j =
        (\<Sum>(r, d)\<leftarrow>zip (leaves (t_index ?x)) (leaves ?dy).
           \<Sum>(k, g)\<leftarrow>zip r d. if k = int i then g ! j else 0)"
    "\<exists>c1. EmbeddingFn_forward ?c ?x ?table = Inr (Batch [Leaf [[10], [10], [20]]], c1) \<and>
          EmbeddingFn_backward c1 ?dy = Inr (Leaf G, ?c)"
    "\<exists>bw. lookup_embedding ?x \<lparr>p_data = ?table, requires_grad = True\<rparr> True
             = Inr (Batch [Leaf [[10], [10], [20]]], Some bw) \<and>
          bw ?dy = Some (rows_view (Leaf G))"
    using embedding_gather_scatter_two_axes [OF h1 h2 h3(1) h3(2) h3(2) h6 h7 h8 h9 h10, of True]
    by auto
  have "G ! 0 ! 0 = 3" "G ! 1 ! 0 = 4" "G ! 2 ! 0 = 0"
    using G(2) [rule_format, of 0 0] G(2) [rule_format, of 1 0] G(2) [rule_format, of 2 0]
    by simp_all
  then show ?thesis
    using G(1,3,4) h2 h6 h7 h8 by (simp add: is_integer_def) blast
qed

section \<open>Further facts about convolution and pooling\<close>

text \<open>What the code does with "valid" padding on one row: with the dilated filter length
  \<open>Kd\<close> (\<open>K\<close> for the dilation 1, \<open>D * K - 1\<close> otherwise) the output has
  \<open>floor((L - Kd) / S) + 1\<close> entries.  For \<open>D \<le> 2\<close> this is the shape law of the spec.\<close>

lemma length_every_nth: "length (every_nth k xs) = (length xs + k - 1) div k"
  by (simp add: every_nth_def)

lemma length_fft_conv_row: "length (fft_conv_row x f) = length x"
  by (simp add: fft_conv_row_def Let_def)

lemma convolve1d_valid_length:
  fixes x f :: "('a::semiring_0) list"
  assumes "1 \<le> S" "1 \<le> D" "f \<noteq> []"
    and "Kd = (if D = 1 then length f else D * length f - 1)" "Kd \<le> length x"
  shows "\<exists>y. convolve1d (Leaf x) (Leaf f) ''valid'' (int S) (int D) = Inr (Leaf y) \<and>
             length y = (length x - Kd) div S + 1"
proof -
  have K: "0 < length f" using assms(3) by simp
  have Kd_pos: "1 \<le> Kd"
  proof (cases "D = 1")
    case True
    then show ?thesis using assms(3,4) by (cases f) simp_all
  next
    case False
    then have "2 \<le> D * length f" using assms(2) K
      by (metis One_nat_def Suc_1 Suc_leI le_neq_implies_less mult.right_neutral mult_le_mono)
    then show ?thesis using assms(4) False by simp
  qed
  obtain f1 where f1: "(if 1 < int D then priv_dilate1d (Leaf f) (int D) else Inr (Leaf f))
      = Inr (Leaf f1)" "length f1 = Kd"
  proof (cases "D = 1")
    case True
    then show ?thesis using that [of f] assms(4) by simp
  next
    case False
    then have D: "1 < D" using assms(2) by simp
    have "0 < D * length f" using D K by simp
    then have pos: "\<not> int D * int (length f) - 1 < 0"
      by (metis of_nat_mult of_nat_0_less_iff not_less zle_diff1_eq)
    have nat_eq: "nat (int D * int (length f) - 1) = D * length f - 1"
      by (metis nat_int of_nat_mult nat_diff_distrib' of_nat_0_le_iff nat_one_as_int of_nat_1)
    show ?thesis
      using that [of "assign_strided D (replicate (D * length f - 1) 0) f"] D False pos nat_eq
        assms(4)
      by (simp add: priv_dilate1d_def Let_def length_assign_strided)
  qed
  let ?L = "length x"
  let ?conv = "fft_conv_row x f1"
  let ?out = "int ?L - int Kd + 1"
  have L: "0 < ?L" using Kd_pos assms(5) by linarith
  have bound: "slice_bound ?L (- ?out) = Kd - 1"
    using assms(5) Kd_pos by (simp add: slice_bound_def)
  have slice: "length (py_slice_from (- ?out) ?conv) = ?L - Kd + 1"
    using bound assms(5) Kd_pos
    by (simp add: py_slice_from_def length_fft_conv_row)
  have S: "0 < S" using assms(1) by simp
  have "(?L - Kd + 1 + S - 1) div S = (?L - Kd) div S + 1"
    using S by (simp add: add.commute)
  then have len: "length (py_stride (int S) (py_slice_from (- ?out) ?conv)) = (?L - Kd) div S + 1"
    using S slice by (simp add: py_stride_def length_every_nth)
  have "convolve1d (Leaf x) (Leaf f) ''valid'' (int S) (int D) =
        Inr (Leaf (py_stride (int S) (py_slice_from (- ?out) ?conv)))"
    using f1 L S by (simp add: convolve1d_def priv_convolve1d_def Let_def)
  then show ?thesis using len by blast
qed

text \<open>The upsampling of nn/functional/convolutions.py is that of nn/functional.py with the two
  scaling factors exchanged: the two agree exactly when the kernel is square.\<close>

lemma repeat_rows_repeat_last: "repeat_rows a (repeat_last b m) = repeat_last b (repeat_rows a m)"
  by (induction m) (simp_all add: repeat_rows_def repeat_last_def)

lemma FUpsample2D_swaps_factors:
  "FUpsample2D_forward x (f1, f2) shape = functional_upsample2d x (f2, f1) shape"
  by (simp add: FUpsample2D_forward_def functional_upsample2d_def repeat_rows_repeat_last)

text \<open>Ties in a window, where the upsampling is right: with a square kernel the backward pass
  of \<open>FMaxPooling2D\<close> gives the window gradient to both tied maxima of the first window
  (and nothing to the truncated fifth row and column); \<open>maxpooling2d\<close> of nn/functional.py
  does so for the kernel (2, 3) as well.\<close>

lemma max_pool_ties_square_kernel:
  "max_pool_grad FunctionCache
     (Leaf [[1, 5, 2, 3, 9], [5, 0, 3, 1, 9], [7, 7, 7, 7, 9], [7, 1, 2, 8, 9], [9, 9, 9, 9, 9 :: int]])
     (2, 2) (Leaf [[1, 2], [3, 4]])
   = Inr (Leaf [[0, 1, 0, 2, 0], [1, 0, 2, 0, 0], [3, 3, 0, 0, 0], [3, 0, 0, 4, 0], [0, 0, 0, 0, 0]])"
  by code_simp

lemma functional_maxpooling2d_ties:
  "map_sum id (\<lambda>(y, bw). (y, map_option (\<lambda>g. g (Batch [Batch [Leaf [[1]]]])) bw))
     (functional_maxpooling2d (Batch [Batch [Leaf [[0, 0, 7], [0, 0, 7], [0, 0, 0 :: int]]]])
        (2, 3) True)
   = Inr (Batch [Batch [Leaf [[7]]]],
          Some (Inr (Batch [Batch [Leaf [[0, 0, 1], [0, 0, 1], [0, 0, 0]]]])))"
  by code_simp

text \<open>The forward pass of pooling on one matrix of extents \<open>H x W\<close>: the output has the
  extents \<open>H div kh\<close> and \<open>W div kw\<close>, and entry \<open>(i, j)\<close> is the reduction of the entries
  of window \<open>(i, j)\<close> alone, so the truncated rows and columns do not enter it.\<close>

lemma take_drop_map_nth:
  "i + n \<le> length xs \<Longrightarrow> take n (drop i xs) = map (\<lambda>a. xs ! (i + a)) [0..<n]"
  by (auto intro!: nth_equalityI)

lemma length_chunks: "length (chunks n xs) = length xs div n"
  by (simp add: chunks_def)

lemma nth_chunks: "j < length xs div n \<Longrightarrow> chunks n xs ! j = take n (drop (j * n) xs)"
  by (simp add: chunks_def)

lemma window_bound:
  fixes i k n :: nat
  assumes "i < n div k"
  shows "i * k + k \<le> n div k * k" "n div k * k \<le> n"
proof -
  have "Suc i \<le> n div k" using assms by simp
  then have "Suc i * k \<le> n div k * k" by (rule mult_le_mono1)
  then show "i * k + k \<le> n div k * k" by (simp add: add.commute)
  show "n div k * k \<le> n" by simp
qed

lemma pool_forward_window:
  assumes "is_mat H W m" "0 < H" "0 < kh" "0 < kw"
  shows "\<exists>y. pool_forward red (Leaf m) (kh, kw) = Inr (Leaf y) \<and>
           is_mat (H div kh) (W div kw) y \<and>
           (\<forall>i<H div kh. \<forall>j<W div kw. y ! i ! j =
              red (concat (map (\<lambda>a. map (\<lambda>b. m ! (i * kh + a) ! (j * kw + b)) [0..<kw]) [0..<kh])))"
proof -
  let ?ty = "H div kh * kh" and ?tx = "W div kw * kw"
  let ?xt = "map (take ?tx) (take ?ty m)"
  let ?y = "reduce_windows red (W div kw) (to_pool_shape kh kw ?xt)"
  have dims: "last2_dims (Leaf m) = (H, W)"
    using assms(1,2) n_cols_is_mat [OF assms(1,2)] by (simp add: mat_shape_def is_mat_def n_cols_def)
  have fwd: "pool_forward red (Leaf m) (kh, kw) = Inr (Leaf ?y)"
    using dims assms(3,4) by (simp add: pool_forward_def Let_def)
  have lenm: "length m = H" using assms(1) by (simp add: is_mat_def)
  have lenxt: "length ?xt = ?ty" using lenm by simp
  have nwin: "length ?xt div kh = H div kh" using lenxt assms(3) by simp
  have lc: "length (chunks kh ?xt) = H div kh"
    by (simp only: length_chunks nwin)
  have leny: "length ?y = H div kh"
    unfolding reduce_windows_def to_pool_shape_def length_map by (rule lc)
  have rowy: "?y ! i = map (\<lambda>j. red (concat (map (\<lambda>a. map (\<lambda>b. m ! (i * kh + a) ! (j * kw + b))
                   [0..<kw]) [0..<kh]))) [0..<W div kw]"
    if i: "i < H div kh" for i
  proof -
    have b1: "i * kh + kh \<le> ?ty" "?ty \<le> H" using window_bound [OF i] by simp_all
    have grp: "chunks kh ?xt ! i = map (\<lambda>a. take ?tx (m ! (i * kh + a))) [0..<kh]"
    proof -
      have "chunks kh ?xt ! i = take kh (drop (i * kh) ?xt)"
        using i nwin by (simp add: nth_chunks)
      also have "\<dots> = map (\<lambda>a. ?xt ! (i * kh + a)) [0..<kh]"
        by (rule take_drop_map_nth) (use b1 lenxt in simp)
      also have "\<dots> = map (\<lambda>a. take ?tx (m ! (i * kh + a))) [0..<kh]"
      proof (rule map_cong [OF refl])
        fix a assume "a \<in> set [0..<kh]"
        then have "i * kh + a < ?ty" using b1 by simp
        then show "?xt ! (i * kh + a) = take ?tx (m ! (i * kh + a))"
          using lenm b1(2) by simp
      qed
      finally show ?thesis .
    qed
    have piece: "chunks kw (take ?tx (m ! (i * kh + a))) ! j =
          map (\<lambda>b. m ! (i * kh + a) ! (j * kw + b)) [0..<kw]"
      if a: "a < kh" and j: "j < W div kw" for a j
    proof -
      have r: "i * kh + a < H" using a b1 by linarith
      have lenr: "length (m ! (i * kh + a)) = W" using assms(1) r by (simp add: is_mat_row)
      have b2: "j * kw + kw \<le> ?tx" "?tx \<le> W" using window_bound [OF j] by simp_all
      have lent: "length (take ?tx (m ! (i * kh + a))) = ?tx" using lenr by simp
      have "chunks kw (take ?tx (m ! (i * kh + a))) ! j =
            take kw (drop (j * kw) (take ?tx (m ! (i * kh + a))))"
        using j lent assms(4) by (simp add: nth_chunks del: length_take)
      also have "\<dots> = map (\<lambda>b. take ?tx (m ! (i * kh + a)) ! (j * kw + b)) [0..<kw]"
        by (rule take_drop_map_nth) (use b2 lent in simp)
      also have "\<dots> = map (\<lambda>b. m ! (i * kh + a) ! (j * kw + b)) [0..<kw]"
      proof (rule map_cong [OF refl])
        fix b assume "b \<in> set [0..<kw]"
        then have "j * kw + b < ?tx" using b2 by simp
        then show "take ?tx (m ! (i * kh + a)) ! (j * kw + b) = m ! (i * kh + a) ! (j * kw + b)"
          by simp
      qed
      finally show ?thesis .
    qed
    have "?y ! i = map (\<lambda>j. red (concat (map (\<lambda>row. row ! j) (map (chunks kw) (chunks kh ?xt ! i)))))
                     [0..<W div kw]"
      unfolding reduce_windows_def to_pool_shape_def using i lc by (simp only: nth_map length_map)
    also have "\<dots> = map (\<lambda>j. red (concat (map (\<lambda>a. map (\<lambda>b. m ! (i * kh + a) ! (j * kw + b))
                   [0..<kw]) [0..<kh]))) [0..<W div kw]"
    proof (rule map_cong [OF refl])
      fix j assume "j \<in> set [0..<W div kw]"
      then have j: "j < W div kw" by simp
      have "map (\<lambda>row. row ! j) (map (chunks kw) (chunks kh ?xt ! i)) =
            map (\<lambda>a. map (\<lambda>b. m ! (i * kh + a) ! (j * kw + b)) [0..<kw]) [0..<kh]"
        unfolding grp using piece [OF _ j] by (simp add: comp_def)
      then show "red (concat (map (\<lambda>row. row ! j) (map (chunks kw) (chunks kh ?xt ! i)))) =
            red (concat (map (\<lambda>a. map (\<lambda>b. m ! (i * kh + a) ! (j * kw + b)) [0..<kw]) [0..<kh]))"
        by simp
    qed
    finally show ?thesis .
  qed
  have "is_mat (H div kh) (W div kw) ?y"
    using leny rowy by (simp add: is_mat_def list_all_length)
  moreover have "\<forall>i<H div kh. \<forall>j<W div kw. ?y ! i ! j =
      red (concat (map (\<lambda>a. map (\<lambda>b. m ! (i * kh + a) ! (j * kw + b)) [0..<kw]) [0..<kh]))"
    using rowy by simp
  ultimately show ?thesis using fwd by blast
qed

text \<open>The backward pass of average pooling with a square kernel \<open>(k, k)\<close> on one matrix:
  every position of a window receives the gradient of the window divided by \<open>k * k\<close>, and
  the truncated rows and columns receive zero.\<close>

lemma length_concat_replicate: "length (concat (map (replicate n) xs)) = n * length xs"
  by (induction xs) auto

lemma nth_concat_replicate:
  "i < n * length xs \<Longrightarrow> concat (map (replicate n) xs) ! i = xs ! (i div n)"
proof (induction xs arbitrary: i)
  case Nil
  then show ?case by simp
next
  case (Cons x xs)
  show ?case
  proof (cases "i < n")
    case True
    then show ?thesis by (simp add: nth_append)
  next
    case False
    have n0: "0 < n" using Cons.prems by (cases n) auto
    have n: "0 < n" "n \<le> i" using n0 False by simp_all
    have "i - n < n * length xs" using Cons.prems n by simp
    then have "concat (map (replicate n) xs) ! (i - n) = xs ! ((i - n) div n)"
      by (rule Cons.IH)
    moreover have "i div n = Suc ((i - n) div n)"
      using n by (simp add: le_div_geq)
    ultimately show ?thesis using False by (simp add: nth_append)
  qed
qed

lemma upsample_square:
  assumes "is_mat h w dy"
  shows "is_mat (k * h) (k * w) (repeat_rows k (repeat_last k dy))"
    and "r < k * h \<Longrightarrow> c < k * w \<Longrightarrow>
         repeat_rows k (repeat_last k dy) ! r ! c = dy ! (r div k) ! (c div k)"
proof -
  have len: "length dy = h" and rows: "\<And>i. i < h \<Longrightarrow> length (dy ! i) = w"
    using assms by (simp_all add: is_mat_def list_all_length)
  have lenr: "length (repeat_last k dy) = h" using len by (simp add: repeat_last_def)
  have row: "repeat_rows k (repeat_last k dy) ! r = concat (map (replicate k) (dy ! (r div k)))"
    if "r < k * h" for r
  proof -
    have "r div k < h" using that
      by (metis less_mult_imp_div_less mult.commute)
    then show ?thesis
      using that lenr len nth_concat_replicate [of r k "repeat_last k dy"]
      by (simp add: repeat_rows_def) (simp add: repeat_last_def)
  qed
  have rdiv: "r div k < h" if "r < k * h" for r
    using that by (metis less_mult_imp_div_less mult.commute)
  show "is_mat (k * h) (k * w) (repeat_rows k (repeat_last k dy))"
    unfolding is_mat_def list_all_length
  proof (intro conjI allI impI)
    show l: "length (repeat_rows k (repeat_last k dy)) = k * h"
      using lenr by (simp add: repeat_rows_def length_concat_replicate)
    fix n assume "n < length (repeat_rows k (repeat_last k dy))"
    then have n: "n < k * h" using l by simp
    show "length (repeat_rows k (repeat_last k dy) ! n) = k * w"
      using row [OF n] rows [OF rdiv [OF n]] by (simp add: length_concat_replicate)
  qed
  show "repeat_rows k (repeat_last k dy) ! r ! c = dy ! (r div k) ! (c div k)"
    if r: "r < k * h" and c: "c < k * w"
    using row [OF r] rows [OF rdiv [OF r]] c by (simp add: nth_concat_replicate)
qed

lemma pad_end_matrix:
  fixes a :: "('a::zero) mat"
  assumes "is_mat h w a" "h \<le> H" "w \<le> W"
  shows "\<exists>g. pad_end [H, W] (Leaf a) = Leaf g \<and> is_mat H W g \<and>
           (\<forall>r<H. \<forall>c<W. g ! r ! c = (if r < h \<and> c < w then a ! r ! c else 0))"
proof -
  let ?g = "map (\<lambda>r. r @ replicate (W - length r) 0) a @ replicate (H - length a) (replicate W 0)"
  have len: "length a = h" and rows: "\<And>i. i < h \<Longrightarrow> length (a ! i) = w"
    using assms(1) by (simp_all add: is_mat_def list_all_length)
  have g: "pad_end [H, W] (Leaf a) = Leaf ?g" by simp
  have entry: "length (?g ! r) = W \<and> (\<forall>c<W. ?g ! r ! c = (if r < h \<and> c < w then a ! r ! c else 0))"
    if r: "r < H" for r
  proof (cases "r < h")
    case True
    then show ?thesis using len rows [OF True] assms(3) by (simp add: nth_append)
  next
    case False
    then show ?thesis using len r by (simp add: nth_append)
  qed
  have "length ?g = H" using len assms(2) by simp
  then have "is_mat H W ?g" using entry by (simp add: is_mat_def list_all_length)
  then show ?thesis using g entry by blast
qed

lemma FUpsample2D_square:
  fixes dy :: "('a::zero) mat"
  assumes "is_mat h w dy" "k * h \<le> H" "k * w \<le> W" "0 < H"
  shows "\<exists>g. FUpsample2D_forward (Leaf dy) (k, k) [H, W] = Inr (Leaf g) \<and> is_mat H W g \<and>
           (\<forall>r<H. \<forall>c<W. g ! r ! c =
              (if r < k * h \<and> c < k * w then dy ! (r div k) ! (c div k) else 0))"
proof -
  let ?u = "repeat_rows k (repeat_last k dy)"
  have u: "is_mat (k * h) (k * w) ?u" by (rule upsample_square(1) [OF assms(1)])
  show ?thesis
  proof (cases "mshape (Leaf ?u) = [H, W]")
    case True
    then have "length ?u = H" by (simp add: mat_shape_def)
    then have Hh: "k * h = H" using u by (simp add: is_mat_def)
    then have "n_cols ?u = k * w" using n_cols_is_mat [OF u] assms(4) by simp
    then have Ww: "k * w = W" using True by (simp add: mat_shape_def n_cols_def)
    have "\<forall>r<H. \<forall>c<W. ?u ! r ! c =
        (if r < k * h \<and> c < k * w then dy ! (r div k) ! (c div k) else 0)"
      using upsample_square(2) [OF assms(1)] Hh Ww by simp
    moreover have "is_mat H W ?u" using u Hh Ww by simp
    moreover have "FUpsample2D_forward (Leaf dy) (k, k) [H, W] = Inr (Leaf ?u)"
      using True by (simp add: FUpsample2D_forward_def Let_def)
    ultimately show ?thesis by blast
  next
    case False
    have "snd (mat_shape ?u) \<le> W"
    proof (cases "k * h = 0")
      case True
      then have "length ?u = 0" using u by (simp only: is_mat_def)
      then have "?u = []" by simp
      then show ?thesis by (simp add: mat_shape_def)
    next
      case False
      then have "n_cols ?u = k * w" using n_cols_is_mat [OF u] by simp
      then show ?thesis using assms(3) by (simp add: mat_shape_def n_cols_def)
    qed
    moreover have "fst (mat_shape ?u) \<le> H"
      using u assms(2) by (simp add: mat_shape_def is_mat_def)
    ultimately have ok: "list_all2 (\<le>) (mshape (Leaf ?u)) [H, W]" by simp
    obtain g where g: "pad_end [H, W] (Leaf ?u) = Leaf g" "is_mat H W g"
      "\<forall>r<H. \<forall>c<W. g ! r ! c = (if r < k * h \<and> c < k * w then ?u ! r ! c else 0)"
      using pad_end_matrix [OF u assms(2,3)] by blast
    have "\<forall>r<H. \<forall>c<W. g ! r ! c =
        (if r < k * h \<and> c < k * w then dy ! (r div k) ! (c div k) else 0)"
      using g(3) upsample_square(2) [OF assms(1)] by simp
    moreover have "FUpsample2D_forward (Leaf dy) (k, k) [H, W] = Inr (Leaf g)"
      using False ok g(1)
      by (simp add: FUpsample2D_forward_def pad_to_shape_def Let_def
          del: pad_end.simps mshape.simps)
    ultimately show ?thesis using g(2) by blast
  qed
qed

lemma mshape_matrix: "is_mat H W m \<Longrightarrow> 0 < H \<Longrightarrow> mshape (Leaf m) = [H, W]"
  using n_cols_is_mat [of H W m] by (simp add: mat_shape_def is_mat_def n_cols_def)

lemma avg_pool_grad_square:
  fixes m :: "('a::field) mat"
  assumes "\<not> is_pseudo cache" "is_mat H W m" "0 < H" "0 < k" "is_mat (H div k) (W div k) dy"
  shows "\<exists>g. avg_pool_grad cache (Leaf m) (k, k) (Leaf dy) = Inr (Leaf g) \<and> is_mat H W g \<and>
           (\<forall>r<H. \<forall>c<W. g ! r ! c =
              (if r < k * (H div k) \<and> c < k * (W div k)
               then dy ! (r div k) ! (c div k) / of_nat (k * k) else 0))"
proof -
  have xs: "mshape (Leaf m) = [H, W]" by (rule mshape_matrix [OF assms(2,3)])
  obtain y where y: "pool_forward mean (Leaf m) (k, k) = Inr (Leaf y)"
    using pool_forward_window [OF assms(2,3,4,4), of mean] by blast
  have hw: "k * (H div k) \<le> H" "k * (W div k) \<le> W" by simp_all
  obtain g0 where g0: "FUpsample2D_forward (Leaf dy) (k, k) [H, W] = Inr (Leaf g0)" "is_mat H W g0"
    "\<forall>r<H. \<forall>c<W. g0 ! r ! c =
       (if r < k * (H div k) \<and> c < k * (W div k) then dy ! (r div k) ! (c div k) else 0)"
    using FUpsample2D_square [OF assms(5) hw assms(3)] by blast
  let ?g = "map (map (\<lambda>v. v / of_nat (k * k))) g0"
  have "avg_pool_grad cache (Leaf m) (k, k) (Leaf dy) = Inr (Leaf ?g)"
    using assms(1) y xs g0(1)
    by (simp add: avg_pool_grad_def FAvgPooling2D_forward_def FAvgPooling2D_backward_def
        upsample2d_def del: mshape.simps)
  moreover have "is_mat H W ?g" using g0(2) by (simp add: is_mat_def list_all_iff)
  moreover have "\<forall>r<H. \<forall>c<W. ?g ! r ! c =
      (if r < k * (H div k) \<and> c < k * (W div k)
       then dy ! (r div k) ! (c div k) / of_nat (k * k) else 0)"
    using g0(2,3) by (simp add: is_mat_def list_all_length)
  ultimately show ?thesis by blast
qed

text \<open>The backward pass of max pooling with a square kernel on one matrix: a position inside
  a window receives the gradient of the window exactly when its value equals the maximum of
  the window, so every tied maximum receives it; the truncated positions receive zero.\<close>

lemma max_pool_grad_square:
  fixes m :: "('a::{linorder,zero}) mat"
  assumes "\<not> is_pseudo cache" "is_mat H W m" "0 < H" "0 < k" "is_mat (H div k) (W div k) dy"
  shows "\<exists>g. max_pool_grad cache (Leaf m) (k, k) (Leaf dy) = Inr (Leaf g) \<and> is_mat H W g \<and>
           (\<forall>r<H. \<forall>c<W. g ! r ! c =
              (if r < k * (H div k) \<and> c < k * (W div k) \<and>
                  m ! r ! c = cp_max (concat (map (\<lambda>a. map (\<lambda>b.
                      m ! (r div k * k + a) ! (c div k * k + b)) [0..<k]) [0..<k]))
               then dy ! (r div k) ! (c div k) else 0))"
proof -
  let ?h = "H div k" and ?w = "W div k"
  have xs: "mshape (Leaf m) = [H, W]" by (rule mshape_matrix [OF assms(2,3)])
  obtain y where y: "pool_forward cp_max (Leaf m) (k, k) = Inr (Leaf y)" "is_mat ?h ?w y"
    "\<forall>i<?h. \<forall>j<?w. y ! i ! j =
       cp_max (concat (map (\<lambda>a. map (\<lambda>b. m ! (i * k + a) ! (j * k + b)) [0..<k]) [0..<k]))"
    using pool_forward_window [OF assms(2,3,4,4), of cp_max] by blast
  have hw: "k * ?h \<le> H" "k * ?w \<le> W" by simp_all
  obtain yu where yu: "FUpsample2D_forward (Leaf y) (k, k) [H, W] = Inr (Leaf yu)" "is_mat H W yu"
    "\<forall>r<H. \<forall>c<W. yu ! r ! c = (if r < k * ?h \<and> c < k * ?w then y ! (r div k) ! (c div k) else 0)"
    using FUpsample2D_square [OF y(2) hw assms(3)] by blast
  obtain du where du: "FUpsample2D_forward (Leaf dy) (k, k) [H, W] = Inr (Leaf du)" "is_mat H W du"
    "\<forall>r<H. \<forall>c<W. du ! r ! c = (if r < k * ?h \<and> c < k * ?w then dy ! (r div k) ! (c div k) else 0)"
    using FUpsample2D_square [OF assms(5) hw assms(3)] by blast
  let ?g = "map2 (map2 (\<lambda>g keep. if keep then g else 0)) du (map2 (map2 (=)) m yu)"
  have grad: "max_pool_grad cache (Leaf m) (k, k) (Leaf dy) = Inr (Leaf ?g)"
    using assms(1) y(1) xs yu(1) du(1)
    by (simp add: max_pool_grad_def FMaxPooling2D_forward_def FMaxPooling2D_backward_def
        upsample2d_def del: mshape.simps)
  have len: "length m = H" "length yu = H" "length du = H"
    using assms(2) yu(2) du(2) by (simp_all add: is_mat_def)
  have rows: "length (m ! r) = W \<and> length (yu ! r) = W \<and> length (du ! r) = W" if "r < H" for r
    using assms(2) yu(2) du(2) that by (simp add: is_mat_row)
  have shape: "is_mat H W ?g"
    using len rows by (simp add: is_mat_def list_all_length)
  have entry: "?g ! r ! c = (if m ! r ! c = yu ! r ! c then du ! r ! c else 0)"
    if "r < H" "c < W" for r c
    using len rows [OF that(1)] that by simp
  have "?g ! r ! c =
      (if r < k * ?h \<and> c < k * ?w \<and>
          m ! r ! c = cp_max (concat (map (\<lambda>a. map (\<lambda>b.
              m ! (r div k * k + a) ! (c div k * k + b)) [0..<k]) [0..<k]))
       then dy ! (r div k) ! (c div k) else 0)"
    if rc: "r < H" "c < W" for r c
  proof (cases "r < k * ?h \<and> c < k * ?w")
    case True
    then have "r div k < ?h" "c div k < ?w"
      by (metis less_mult_imp_div_less mult.commute)+
    then have "y ! (r div k) ! (c div k) = cp_max (concat (map (\<lambda>a. map (\<lambda>b.
              m ! (r div k * k + a) ! (c div k * k + b)) [0..<k]) [0..<k]))"
      using y(3) by simp
    then show ?thesis using entry [OF rc] yu(3) du(3) rc True by simp
  next
    case False
    then show ?thesis using entry [OF rc] du(3) rc by auto
  qed
  then show ?thesis using grad shape by blast
qed

end
